theory Spec2Isabelle
  imports Main "HOL-Library.AList"
begin

section \<open>Game constants (tetris.py, lines 9-23)\<close>

abbreviation GRID_WIDTH :: int where "GRID_WIDTH \<equiv> 10"
abbreviation GRID_HEIGHT :: int where "GRID_HEIGHT \<equiv> 20"

text \<open>A colour is an RGB triple, as in the source.\<close>

type_synonym color = "nat \<times> nat \<times> nat"

definition BLACK :: color where "BLACK = (0, 0, 0)"

definition COLOR_I :: color where "COLOR_I = (0, 240, 240)"
definition COLOR_O :: color where "COLOR_O = (240, 240, 0)"
definition COLOR_T :: color where "COLOR_T = (160, 0, 240)"
definition COLOR_S :: color where "COLOR_S = (0, 240, 0)"
definition COLOR_Z :: color where "COLOR_Z = (240, 0, 0)"
definition COLOR_J :: color where "COLOR_J = (0, 0, 240)"
definition COLOR_L :: color where "COLOR_L = (240, 160, 0)"

section \<open>Tetromino definitions (lines 41-95)\<close>

text \<open>
  Each shape is a list of four rotation states, each a list of four offsets from the
  pivot. The source calls the tables \<open>I, O, T, S, Z, J, L\<close>; the prefix \<open>SHAPE_\<close>
  keeps the single letters free for variables.
\<close>

type_synonym cell = "int \<times> int"

definition SHAPE_I :: "cell list list" where
  "SHAPE_I =
    [[(0, 0), (-1, 0), (1, 0), (2, 0)],
     [(0, 0), (0, -1), (0, 1), (0, 2)],
     [(0, 0), (-1, 0), (1, 0), (2, 0)],
     [(0, 0), (0, -1), (0, 1), (0, 2)]]"

definition SHAPE_O :: "cell list list" where
  "SHAPE_O =
    [[(0, 0), (1, 0), (0, 1), (1, 1)],
     [(0, 0), (1, 0), (0, 1), (1, 1)],
     [(0, 0), (1, 0), (0, 1), (1, 1)],
     [(0, 0), (1, 0), (0, 1), (1, 1)]]"

definition SHAPE_T :: "cell list list" where
  "SHAPE_T =
    [[(0, 0), (-1, 0), (1, 0), (0, -1)],
     [(0, 0), (0, -1), (0, 1), (1, 0)],
     [(0, 0), (-1, 0), (1, 0), (0, 1)],
     [(0, 0), (0, -1), (0, 1), (-1, 0)]]"

definition SHAPE_S :: "cell list list" where
  "SHAPE_S =
    [[(0, 0), (-1, 0), (0, -1), (1, -1)],
     [(0, 0), (0, -1), (1, 0), (1, 1)],
     [(0, 0), (-1, 0), (0, -1), (1, -1)],
     [(0, 0), (0, -1), (1, 0), (1, 1)]]"

definition SHAPE_Z :: "cell list list" where
  "SHAPE_Z =
    [[(0, 0), (1, 0), (0, -1), (-1, -1)],
     [(0, 0), (0, -1), (-1, 0), (-1, 1)],
     [(0, 0), (1, 0), (0, -1), (-1, -1)],
     [(0, 0), (0, -1), (-1, 0), (-1, 1)]]"

definition SHAPE_J :: "cell list list" where
  "SHAPE_J =
    [[(0, 0), (-1, 0), (1, 0), (-1, -1)],
     [(0, 0), (0, -1), (0, 1), (1, -1)],
     [(0, 0), (-1, 0), (1, 0), (1, 1)],
     [(0, 0), (0, -1), (0, 1), (-1, 1)]]"

definition SHAPE_L :: "cell list list" where
  "SHAPE_L =
    [[(0, 0), (-1, 0), (1, 0), (1, -1)],
     [(0, 0), (0, -1), (0, 1), (1, 1)],
     [(0, 0), (-1, 0), (1, 0), (-1, 1)],
     [(0, 0), (0, -1), (0, 1), (-1, -1)]]"

definition SHAPES :: "cell list list list" where
  "SHAPES = [SHAPE_I, SHAPE_O, SHAPE_T, SHAPE_S, SHAPE_Z, SHAPE_J, SHAPE_L]"

definition SHAPE_COLORS :: "color list" where
  "SHAPE_COLORS = [COLOR_I, COLOR_O, COLOR_T, COLOR_S, COLOR_Z, COLOR_J, COLOR_L]"

section \<open>Piece (lines 98-109)\<close>

text \<open>
  The mutable fields of the class are \<open>x\<close>, \<open>y\<close> and \<open>rotation\<close>; the record calls
  the first two \<open>piece_x\<close> and \<open>piece_y\<close>. The fields \<open>shape\<close> and \<open>color\<close> are set
  once by the constructor from \<open>shape_index\<close> and never assigned again, so they are
  read off the index. The constructor is only ever called with an index below
  \<open>length SHAPES\<close> (\<open>get_new_piece\<close>, line 185).
\<close>

record Piece =
  piece_x :: int
  piece_y :: int
  shape_index :: nat
  rotation :: int

definition shape :: "Piece \<Rightarrow> cell list list" where
  "shape p = SHAPES ! shape_index p"

definition color_of :: "Piece \<Rightarrow> color" where
  "color_of p = SHAPE_COLORS ! shape_index p"

definition new_Piece :: "int \<Rightarrow> int \<Rightarrow> nat \<Rightarrow> Piece" where
  "new_Piece x y idx = \<lparr>piece_x = x, piece_y = y, shape_index = idx, rotation = 0\<rparr>"

definition get_cells :: "Piece \<Rightarrow> cell list" where
  "get_cells p =
    (let offsets = shape p ! nat (rotation p mod 4)
     in map (\<lambda>(dx, dy). (piece_x p + dx, piece_y p + dy)) offsets)"

section \<open>Grid and game logic helpers (lines 116-187)\<close>

text \<open>
  The locked-cell store is a Python dictionary. It is modelled as an association list
  in insertion order: \<open>AList.update\<close> overwrites a present key in place and appends an
  absent one, \<open>AList.delete\<close> removes a key, \<open>map_of\<close> looks one up. A dictionary has
  no duplicate keys, which is \<open>distinct (map fst locked)\<close>.
\<close>

type_synonym locked = "(cell \<times> color) list"
type_synonym grid = "color list list"

definition create_grid :: "locked \<Rightarrow> grid" where
  "create_grid locked =
    fold (\<lambda>((x, y), c) g.
            if 0 \<le> y \<and> y < GRID_HEIGHT \<and> 0 \<le> x \<and> x < GRID_WIDTH
            then g[nat y := (g ! nat y)[nat x := c]] else g)
         locked
         (replicate (nat GRID_HEIGHT) (replicate (nat GRID_WIDTH) BLACK))"

definition accepted :: "grid \<Rightarrow> cell list" where
  "accepted g =
    concat (map (\<lambda>y. map (\<lambda>x. (int x, int y))
                        (filter (\<lambda>x. g ! y ! x = BLACK) [0..<nat GRID_WIDTH]))
                [0..<nat GRID_HEIGHT])"

fun valid_cells :: "cell list \<Rightarrow> cell list \<Rightarrow> bool" where
  "valid_cells acc [] = True"
| "valid_cells acc ((x, y) # cs) =
    (if x < 0 \<or> x \<ge> GRID_WIDTH \<or> y \<ge> GRID_HEIGHT then False
     else if y \<ge> 0 \<and> (x, y) \<notin> set acc then False
     else valid_cells acc cs)"

definition valid_space :: "Piece \<Rightarrow> grid \<Rightarrow> bool" where
  "valid_space p g = valid_cells (accepted g) (get_cells p)"

fun in_bounds_cells :: "cell list \<Rightarrow> bool" where
  "in_bounds_cells [] = True"
| "in_bounds_cells ((x, y) # cs) =
    (if x < 0 \<or> x \<ge> GRID_WIDTH \<or> y \<ge> GRID_HEIGHT then False
     else in_bounds_cells cs)"

definition in_bounds :: "Piece \<Rightarrow> bool" where
  "in_bounds p = in_bounds_cells (get_cells p)"

definition lock_piece :: "Piece \<Rightarrow> locked \<Rightarrow> locked" where
  "lock_piece p locked = fold (\<lambda>pos d. AList.update pos (color_of p) d) (get_cells p) locked"

text \<open>
  \<open>clear_rows\<close>. The first loop collects the rows without a \<open>BLACK\<close> cell. The
  second deletes their keys, ignoring a \<open>KeyError\<close>. The third walks the remaining keys
  sorted by descending \<open>y\<close> (Python's sort is stable, also with \<open>reverse=True\<close>; so is
  \<open>sort_key\<close>), and moves each key down by the number of collected rows \<open>row\<close> with
  \<open>y < row\<close>. \<open>locked.pop(key)\<close> raises \<open>KeyError\<close> on an absent key: the model
  returns \<open>None\<close> there. The variable \<open>rows_cleared\<close> of the source is written and
  never read; it is left out.
\<close>

definition rows_to_clear :: "grid \<Rightarrow> nat list" where
  "rows_to_clear g = filter (\<lambda>y. BLACK \<notin> set (g ! y)) [0..<nat GRID_HEIGHT]"

definition delete_rows :: "nat list \<Rightarrow> locked \<Rightarrow> locked" where
  "delete_rows rows locked =
    fold (\<lambda>y d. fold (\<lambda>x d'. AList.delete (int x, int y) d') [0..<nat GRID_WIDTH] d)
         rows locked"

definition shift_of :: "nat list \<Rightarrow> int \<Rightarrow> nat" where
  "shift_of rows y = length (filter (\<lambda>row. y < int row) rows)"

fun move_down :: "nat list \<Rightarrow> cell list \<Rightarrow> locked \<Rightarrow> locked option" where
  "move_down rows [] d = Some d"
| "move_down rows ((x, y) # ks) d =
    (let shift = shift_of rows y in
     if shift > 0 then
       (case map_of d (x, y) of
          None \<Rightarrow> None
        | Some c \<Rightarrow> move_down rows ks (AList.update (x, y + int shift) c (AList.delete (x, y) d)))
     else move_down rows ks d)"

text \<open>Where the third loop puts a key: \<open>(x, y + shift)\<close>.\<close>

definition moved :: "nat list \<Rightarrow> cell \<Rightarrow> cell" where
  "moved rows k = (fst k, snd k + int (shift_of rows (snd k)))"

definition sorted_keys :: "locked \<Rightarrow> cell list" where
  "sorted_keys d = sort_key (\<lambda>p. - snd p) (map fst d)"

definition clear_rows :: "grid \<Rightarrow> locked \<Rightarrow> (nat \<times> locked) option" where
  "clear_rows g locked =
    (let rows = rows_to_clear g in
     if rows = [] then Some (0, locked)
     else
       (let d = delete_rows rows locked in
        case move_down rows (sorted_keys d) d of
          None \<Rightarrow> None
        | Some d' \<Rightarrow> Some (length rows, d')))"

fun check_lost_keys :: "cell list \<Rightarrow> bool" where
  "check_lost_keys [] = False"
| "check_lost_keys ((x, y) # ks) = (if y < 1 then True else check_lost_keys ks)"

definition check_lost :: "locked \<Rightarrow> bool" where
  "check_lost locked = check_lost_keys (map fst locked)"

section \<open>Rotation with wall kicks (lines 261-279)\<close>

text \<open>
  The function mutates the piece and returns a flag; the model returns the flag and
  the piece as it is left.
\<close>

fun try_kicks :: "Piece \<Rightarrow> grid \<Rightarrow> int list \<Rightarrow> bool \<times> Piece" where
  "try_kicks p g [] = (False, p)"
| "try_kicks p g (dx # dxs) =
    (let old_x = piece_x p;
         p' = p\<lparr>piece_x := piece_x p + dx\<rparr>
     in if valid_space p' g then (True, p')
        else try_kicks (p'\<lparr>piece_x := old_x\<rparr>) g dxs)"

definition kicks :: "int list" where
  "kicks = [1, -1, 2, -2]"

definition try_rotate_with_kicks :: "Piece \<Rightarrow> grid \<Rightarrow> bool \<times> Piece" where
  "try_rotate_with_kicks p g =
    (let prev_rot = rotation p;
         p1 = p\<lparr>rotation := (rotation p + 1) mod 4\<rparr>
     in if valid_space p1 g then (True, p1)
        else (case try_kicks p1 g kicks of
                (True, p2) \<Rightarrow> (True, p2)
              | (False, p2) \<Rightarrow> (False, p2\<lparr>rotation := prev_rot\<rparr>)))"

section \<open>The steps of the main loop (lines 355-361 and 366-386)\<close>

text \<open>
  Hard drop: \<open>while valid_space(...): current_piece.y += 1\<close>, then \<open>y -= 1\<close>. The
  loop is a partial function: \<open>None\<close> stands for a loop that never ends.
\<close>

partial_function (option) hard_drop_loop :: "Piece \<Rightarrow> locked \<Rightarrow> Piece option" where
  "hard_drop_loop p locked =
    (if valid_space p (create_grid locked)
     then hard_drop_loop (p\<lparr>piece_y := piece_y p + 1\<rparr>) locked
     else Some p)"

definition hard_drop :: "Piece \<Rightarrow> locked \<Rightarrow> Piece option" where
  "hard_drop p locked =
    (case hard_drop_loop p locked of
       None \<Rightarrow> None
     | Some p' \<Rightarrow> Some (p'\<lparr>piece_y := piece_y p' - 1\<rparr>))"

text \<open>
  The grid handed to \<open>clear_rows\<close> is the grid of the locked cells with the current
  piece painted on it (lines 366-370).
\<close>

definition draw_piece :: "Piece \<Rightarrow> grid \<Rightarrow> grid" where
  "draw_piece p g0 =
    fold (\<lambda>(x, y) g.
            if y \<ge> 0 then
              (if 0 \<le> x \<and> x < GRID_WIDTH \<and> 0 \<le> y \<and> y < GRID_HEIGHT
               then g[nat y := (g ! nat y)[nat x := color_of p]] else g)
            else g)
         (get_cells p) g0"

definition add_score :: "nat \<Rightarrow> int \<Rightarrow> int" where
  "add_score cleared score =
    (if cleared = 1 then score + 100
     else if cleared = 2 then score + 300
     else if cleared = 3 then score + 500
     else if cleared \<ge> 4 then score + 800
     else score)"

text \<open>Lines 376-386: lock the piece, clear rows, award the score.\<close>

definition lock_event :: "Piece \<Rightarrow> locked \<Rightarrow> int \<Rightarrow> (locked \<times> int) option" where
  "lock_event p locked score =
    (let g = draw_piece p (create_grid locked);
         locked1 = lock_piece p locked
     in case clear_rows g locked1 of
          None \<Rightarrow> None
        | Some (cleared, locked2) \<Rightarrow> Some (locked2, add_score cleared score))"

section \<open>Placement validity\<close>

lemma accepted_iff:
  "(x, y) \<in> set (accepted g) \<longleftrightarrow>
     0 \<le> x \<and> x < GRID_WIDTH \<and> 0 \<le> y \<and> y < GRID_HEIGHT \<and> g ! nat y ! nat x = BLACK"
proof
  assume "(x, y) \<in> set (accepted g)"
  then obtain i j where "i < 20" "j < 10" "g ! i ! j = BLACK" "x = int j" "y = int i"
    by (auto simp: accepted_def)
  then show "0 \<le> x \<and> x < GRID_WIDTH \<and> 0 \<le> y \<and> y < GRID_HEIGHT \<and> g ! nat y ! nat x = BLACK"
    by simp
next
  assume a: "0 \<le> x \<and> x < GRID_WIDTH \<and> 0 \<le> y \<and> y < GRID_HEIGHT \<and> g ! nat y ! nat x = BLACK"
  have mem: "(int j, int i) \<in> set (accepted g)" if "i < 20" "j < 10" "g ! i ! j = BLACK" for i j
    using that unfolding accepted_def by force
  from a have "nat y < 20" "nat x < 10" "g ! nat y ! nat x = BLACK" by auto
  from mem[OF this] a show "(x, y) \<in> set (accepted g)" by simp
qed

lemma valid_cells_iff:
  "valid_cells (accepted g) cs \<longleftrightarrow>
     (\<forall>(x, y) \<in> set cs. 0 \<le> x \<and> x < GRID_WIDTH \<and> y < GRID_HEIGHT \<and>
                         (0 \<le> y \<longrightarrow> g ! nat y ! nat x = BLACK))"
proof (induction cs)
  case Nil
  show ?case by simp
next
  case (Cons c cs)
  obtain x y where c: "c = (x, y)" by (cases c)
  show ?case unfolding c using Cons.IH
    by (auto simp: accepted_iff)
qed

lemma shape_lengths:
  assumes "i < 7"
  shows "length (SHAPES ! i) = 4 \<and> (\<forall>r < 4. length (SHAPES ! i ! r) = 4)"
proof -
  from assms have "i = 0 \<or> i = 1 \<or> i = 2 \<or> i = 3 \<or> i = 4 \<or> i = 5 \<or> i = 6" by arith
  then show ?thesis
    by (auto simp: SHAPES_def SHAPE_I_def SHAPE_O_def SHAPE_T_def SHAPE_S_def SHAPE_Z_def
          SHAPE_J_def SHAPE_L_def less_Suc_eq numeral_eq_Suc nth_Cons')
qed

lemma length_get_cells:
  assumes "shape_index p < 7"
  shows "length (get_cells p) = 4"
proof -
  have "nat (rotation p mod 4) < 4" by simp
  with shape_lengths[OF assms] show ?thesis
    by (simp add: get_cells_def shape_def Let_def)
qed

text \<open>
  C1. For every piece (of one of the seven shapes) and every board, the piece has
  4 occupied cells; \<open>valid_space\<close> is false as soon as one occupied cell has
  \<open>x < 0\<close>, \<open>x \<ge> 10\<close> or \<open>y \<ge> 20\<close>, whatever is locked; it is false as soon as one
  occupied cell with \<open>y \<ge> 0\<close> lies on a cell of the dense grid that is not \<open>BLACK\<close>;
  and it is true exactly when every occupied cell passes both checks, a cell with
  \<open>y < 0\<close> passing the second one unexamined.
\<close>

theorem valid_space_characterisation:
  assumes "shape_index p < length SHAPES"
  shows "length (get_cells p) = 4 \<and>
    ((\<exists>(x, y) \<in> set (get_cells p). x < 0 \<or> x \<ge> 10 \<or> y \<ge> 20)
       \<longrightarrow> \<not> valid_space p (create_grid locked)) \<and>
    ((\<exists>(x, y) \<in> set (get_cells p).
         0 \<le> y \<and> y < 20 \<and> 0 \<le> x \<and> x < 10 \<and> create_grid locked ! nat y ! nat x \<noteq> BLACK)
       \<longrightarrow> \<not> valid_space p (create_grid locked)) \<and>
    (valid_space p (create_grid locked) \<longleftrightarrow>
       (\<forall>(x, y) \<in> set (get_cells p).
          \<not> (x < 0 \<or> x \<ge> 10 \<or> y \<ge> 20) \<and>
          (y \<ge> 0 \<longrightarrow> create_grid locked ! nat y ! nat x = BLACK)))"
proof -
  from assms have "shape_index p < 7" by (simp add: SHAPES_def)
  then have "length (get_cells p) = 4" by (rule length_get_cells)
  then show ?thesis
    unfolding valid_space_def valid_cells_iff by fastforce
qed

theorem valid_space_characterisation_witness:
  "shape_index (new_Piece 5 0 2) < length SHAPES \<and>
   get_cells (new_Piece 5 0 2) = [(5, 0), (4, 0), (6, 0), (5, -1)] \<and>
   valid_space (new_Piece 5 0 2) (create_grid []) \<and>
   \<not> valid_space (new_Piece 0 0 2) (create_grid []) \<and>
   \<not> valid_space (new_Piece 5 0 2) (create_grid [((4, 0), COLOR_I)])"
proof -
  have idx: "shape_index (new_Piece x y 2) < length SHAPES" for x y
    by (simp add: new_Piece_def SHAPES_def)
  have cells: "get_cells (new_Piece x y 2) = [(x, y), (x - 1, y), (x + 1, y), (x, y - 1)]" for x y
    by (simp add: get_cells_def new_Piece_def shape_def SHAPES_def SHAPE_T_def)
  have g0: "create_grid [] = replicate 20 (replicate 10 BLACK)"
    by (simp add: create_grid_def)
  have g1: "create_grid [((4, 0), COLOR_I)] ! 0 ! 4 \<noteq> BLACK"
    by (simp add: create_grid_def COLOR_I_def BLACK_def)
  have a: "valid_space (new_Piece 5 0 2) (create_grid [])"
    using valid_space_characterisation [OF idx, of 5 0 "[]"]
    by (simp add: cells g0)
  have b: "\<not> valid_space (new_Piece 0 0 2) (create_grid [])"
    using valid_space_characterisation [OF idx, of 0 0 "[]"]
    by (simp add: cells)
  have c: "\<not> valid_space (new_Piece 5 0 2) (create_grid [((4, 0), COLOR_I)])"
    using valid_space_characterisation [OF idx, of 5 0 "[((4, 0), COLOR_I)]"] g1
    by (simp add: cells)
  from idx cells a b c show ?thesis by simp
qed

section \<open>Loss check\<close>

lemma check_lost_keys_iff: "check_lost_keys ks \<longleftrightarrow> (\<exists>(x, y) \<in> set ks. y < 1)"
  by (induction ks rule: check_lost_keys.induct) auto

text \<open>
  C6. For every locked-cell store, \<open>check_lost\<close> is true if and only if some locked
  cell has \<open>y < 1\<close>: a store with a cell at \<open>(3, 0)\<close> reports lost, and a store whose
  cells all have \<open>y \<ge> 1\<close> does not.
\<close>

theorem check_lost_iff:
  "(check_lost locked \<longleftrightarrow> (\<exists>((x, y), c) \<in> set locked. y < 1)) \<and>
   (((3, 0), c0) \<in> set locked \<longrightarrow> check_lost locked) \<and>
   ((\<forall>((x, y), c) \<in> set locked. y \<ge> 1) \<longrightarrow> \<not> check_lost locked)"
proof -
  have "check_lost locked \<longleftrightarrow> (\<exists>((x, y), c) \<in> set locked. y < 1)"
    unfolding check_lost_def check_lost_keys_iff by force
  then show ?thesis by fastforce
qed

theorem check_lost_iff_witness:
  "check_lost [((2, 19), COLOR_O), ((3, 0), COLOR_T)] \<and>
   \<not> check_lost [((2, 19), COLOR_O), ((3, 1), COLOR_T)]"
  using check_lost_iff [of "[((2, 19), COLOR_O), ((3, 0), COLOR_T)]" COLOR_T]
        check_lost_iff [of "[((2, 19), COLOR_O), ((3, 1), COLOR_T)]" COLOR_T]
  by simp

section \<open>Rotation with wall kicks\<close>

lemma try_kicks_first:
  "\<forall>dx \<in> set pre. \<not> valid_space (p\<lparr>piece_x := piece_x p + dx\<rparr>) g \<Longrightarrow>
   valid_space (p\<lparr>piece_x := piece_x p + dx\<rparr>) g \<Longrightarrow>
   try_kicks p g (pre @ dx # post) = (True, p\<lparr>piece_x := piece_x p + dx\<rparr>)"
  by (induction pre arbitrary: p) (auto simp: Let_def)

lemma try_kicks_none:
  "\<forall>dx \<in> set dxs. \<not> valid_space (p\<lparr>piece_x := piece_x p + dx\<rparr>) g \<Longrightarrow>
   try_kicks p g dxs = (False, p)"
  by (induction dxs arbitrary: p) (auto simp: Let_def)

lemma try_rotate_unrolled:
  "try_rotate_with_kicks p g =
    (if valid_space (p\<lparr>rotation := (rotation p + 1) mod 4\<rparr>) g
       then (True, p\<lparr>rotation := (rotation p + 1) mod 4\<rparr>)
     else if valid_space (p\<lparr>rotation := (rotation p + 1) mod 4, piece_x := piece_x p + 1\<rparr>) g
       then (True, p\<lparr>rotation := (rotation p + 1) mod 4, piece_x := piece_x p + 1\<rparr>)
     else if valid_space (p\<lparr>rotation := (rotation p + 1) mod 4, piece_x := piece_x p - 1\<rparr>) g
       then (True, p\<lparr>rotation := (rotation p + 1) mod 4, piece_x := piece_x p - 1\<rparr>)
     else if valid_space (p\<lparr>rotation := (rotation p + 1) mod 4, piece_x := piece_x p + 2\<rparr>) g
       then (True, p\<lparr>rotation := (rotation p + 1) mod 4, piece_x := piece_x p + 2\<rparr>)
     else if valid_space (p\<lparr>rotation := (rotation p + 1) mod 4, piece_x := piece_x p - 2\<rparr>) g
       then (True, p\<lparr>rotation := (rotation p + 1) mod 4, piece_x := piece_x p - 2\<rparr>)
     else (False, p))"
  by (simp add: try_rotate_with_kicks_def kicks_def Let_def)

lemma rotate_no_kick:
  assumes "try_rotate_with_kicks p g = (True, q)" "piece_x q = piece_x p"
  shows "q = p\<lparr>rotation := (rotation p + 1) mod 4\<rparr>"
  using assms unfolding try_rotate_unrolled
  by (auto split: if_splits)

lemma four_rotations:
  assumes "0 \<le> rotation p" "rotation p < 4"
  shows "((((rotation p + 1) mod 4 + 1) mod 4 + 1) mod 4 + 1) mod 4 = rotation p"
  using assms by presburger

lemma valid_space_iff:
  "valid_space p g \<longleftrightarrow>
     (\<forall>(x, y) \<in> set (get_cells p). 0 \<le> x \<and> x < GRID_WIDTH \<and> y < GRID_HEIGHT \<and>
                         (0 \<le> y \<longrightarrow> g ! nat y ! nat x = BLACK))"
  unfolding valid_space_def by (rule valid_cells_iff)

lemma T_cells:
  "get_cells \<lparr>piece_x = x, piece_y = y, shape_index = 2, rotation = 0\<rparr> =
     [(x, y), (x - 1, y), (x + 1, y), (x, y - 1)]"
  "get_cells \<lparr>piece_x = x, piece_y = y, shape_index = 2, rotation = 1\<rparr> =
     [(x, y), (x, y - 1), (x, y + 1), (x + 1, y)]"
  "get_cells \<lparr>piece_x = x, piece_y = y, shape_index = 2, rotation = 2\<rparr> =
     [(x, y), (x - 1, y), (x + 1, y), (x, y + 1)]"
  "get_cells \<lparr>piece_x = x, piece_y = y, shape_index = 2, rotation = 3\<rparr> =
     [(x, y), (x, y - 1), (x, y + 1), (x - 1, y)]"
  by (simp_all add: get_cells_def shape_def SHAPES_def SHAPE_T_def)

text \<open>
  C2. For every piece and every board, \<open>try_rotate_with_kicks\<close> first sets the rotation
  to \<open>(rotation + 1) mod 4\<close> and commits it with the pivot unchanged if that placement
  is valid. Otherwise it tries the pivot offsets \<open>+1, -1, +2, -2\<close> in this order against
  the new rotation, and commits at the first valid one, whatever the later ones are.
  If the in-place rotation and the four kicks are all invalid, it returns failure with
  the piece as it was before the attempt, rotation index and \<open>piece_x\<close> included.
\<close>

theorem try_rotate_with_kicks_order:
  "(let r = p\<lparr>rotation := (rotation p + 1) mod 4\<rparr>;
        k = (\<lambda>dx. r\<lparr>piece_x := piece_x p + dx\<rparr>);
        v = (\<lambda>q. valid_space q g);
        res = try_rotate_with_kicks p g
    in (v r \<longrightarrow> res = (True, r)) \<and>
       (\<not> v r \<and> v (k 1) \<longrightarrow> res = (True, k 1)) \<and>
       (\<not> v r \<and> \<not> v (k 1) \<and> v (k (-1)) \<longrightarrow> res = (True, k (-1))) \<and>
       (\<not> v r \<and> \<not> v (k 1) \<and> \<not> v (k (-1)) \<and> v (k 2) \<longrightarrow> res = (True, k 2)) \<and>
       (\<not> v r \<and> \<not> v (k 1) \<and> \<not> v (k (-1)) \<and> \<not> v (k 2) \<and> v (k (-2))
          \<longrightarrow> res = (True, k (-2))) \<and>
       (\<not> v r \<and> \<not> v (k 1) \<and> \<not> v (k (-1)) \<and> \<not> v (k 2) \<and> \<not> v (k (-2))
          \<longrightarrow> res = (False, p)))"
  unfolding Let_def try_rotate_unrolled by simp

theorem try_rotate_with_kicks_order_witness:
  "try_rotate_with_kicks \<lparr>piece_x = 5, piece_y = 5, shape_index = 2, rotation = 0\<rparr>
       (create_grid [((5, 6), COLOR_O)])
     = (True, \<lparr>piece_x = 6, piece_y = 5, shape_index = 2, rotation = 1\<rparr>) \<and>
   valid_space \<lparr>piece_x = 4, piece_y = 5, shape_index = 2, rotation = 1\<rparr>
       (create_grid [((5, 6), COLOR_O)]) \<and>
   try_rotate_with_kicks \<lparr>piece_x = 5, piece_y = 5, shape_index = 2, rotation = 0\<rparr>
       (create_grid [((3, 6), COLOR_O), ((4, 6), COLOR_O), ((5, 6), COLOR_O),
                     ((6, 6), COLOR_O), ((7, 6), COLOR_O)])
     = (False, \<lparr>piece_x = 5, piece_y = 5, shape_index = 2, rotation = 0\<rparr>)"
proof -
  let ?g1 = "create_grid [((5, 6), COLOR_O)]"
  let ?g2 = "create_grid [((3, 6), COLOR_O), ((4, 6), COLOR_O), ((5, 6), COLOR_O),
                     ((6, 6), COLOR_O), ((7, 6), COLOR_O)]"
  let ?T = "\<lambda>x. \<lparr>piece_x = x, piece_y = 5, shape_index = 2, rotation = 1\<rparr>"
  have ne: "COLOR_O \<noteq> BLACK" by (simp add: COLOR_O_def BLACK_def)
  have g1: "?g1 ! 6 ! 5 \<noteq> BLACK" "?g1 ! 5 = replicate 10 BLACK" "?g1 ! 4 = replicate 10 BLACK"
    "?g1 ! 6 ! 6 = BLACK" "?g1 ! 6 ! 4 = BLACK"
    by (simp_all add: create_grid_def ne)
  have g2: "?g2 ! 6 ! 5 \<noteq> BLACK" "?g2 ! 6 ! 6 \<noteq> BLACK" "?g2 ! 6 ! 4 \<noteq> BLACK"
    "?g2 ! 6 ! 7 \<noteq> BLACK" "?g2 ! 6 ! 3 \<noteq> BLACK"
    by (simp_all add: create_grid_def ne)
  have a: "\<not> valid_space (?T 5) ?g1" "valid_space (?T 6) ?g1" "valid_space (?T 4) ?g1"
    unfolding valid_space_iff T_cells using g1 by simp_all
  have b: "\<not> valid_space (?T 5) ?g2" "\<not> valid_space (?T 6) ?g2" "\<not> valid_space (?T 4) ?g2"
    "\<not> valid_space (?T 7) ?g2" "\<not> valid_space (?T 3) ?g2"
    unfolding valid_space_iff T_cells using g2 by simp_all
  show ?thesis
    using try_rotate_with_kicks_order
            [of "\<lparr>piece_x = 5, piece_y = 5, shape_index = 2, rotation = 0\<rparr>" ?g1]
          try_rotate_with_kicks_order
            [of "\<lparr>piece_x = 5, piece_y = 5, shape_index = 2, rotation = 0\<rparr>" ?g2]
    by (simp add: Let_def a b)
qed

text \<open>
  C9. For every piece with rotation index in \<open>0..3\<close> and every board: four rotation
  attempts in a row, each of which succeeds without a kick (it returns success and
  leaves \<open>piece_x\<close> where it was; every kick offset is non-zero), give back the piece
  with its original rotation index and pivot coordinates.
\<close>

theorem four_rotations_identity:
  assumes "0 \<le> rotation p" and "rotation p < 4"
    and "try_rotate_with_kicks p g = (True, p1)" and "piece_x p1 = piece_x p"
    and "try_rotate_with_kicks p1 g = (True, p2)" and "piece_x p2 = piece_x p1"
    and "try_rotate_with_kicks p2 g = (True, p3)" and "piece_x p3 = piece_x p2"
    and "try_rotate_with_kicks p3 g = (True, p4)" and "piece_x p4 = piece_x p3"
  shows "p4 = p \<and> rotation p4 = rotation p \<and> piece_x p4 = piece_x p \<and> piece_y p4 = piece_y p"
proof -
  have step: "piece_x q = piece_x p' \<and> piece_y q = piece_y p' \<and> shape_index q = shape_index p' \<and>
      rotation q = (rotation p' + 1) mod 4"
    if "try_rotate_with_kicks p' g = (True, q)" "piece_x q = piece_x p'" for p' q
    unfolding rotate_no_kick[OF that] by simp
  note s1 = step[OF assms(3,4)] and s2 = step[OF assms(5,6)]
    and s3 = step[OF assms(7,8)] and s4 = step[OF assms(9,10)]
  have "rotation p4 = ((((rotation p + 1) mod 4 + 1) mod 4 + 1) mod 4 + 1) mod 4"
    by (simp only: s1 s2 s3 s4)
  then have r: "rotation p4 = rotation p"
    by (simp only: four_rotations[OF assms(1,2)])
  have x: "piece_x p4 = piece_x p" by (simp only: s1 s2 s3 s4)
  have y: "piece_y p4 = piece_y p" by (simp only: s1 s2 s3 s4)
  have i: "shape_index p4 = shape_index p" by (simp only: s1 s2 s3 s4)
  have "p4 = p" using x y i r by simp
  with r x y show ?thesis by simp
qed

theorem four_rotations_identity_witness:
  "try_rotate_with_kicks \<lparr>piece_x = 5, piece_y = 5, shape_index = 2, rotation = 0\<rparr> (create_grid [])
     = (True, \<lparr>piece_x = 5, piece_y = 5, shape_index = 2, rotation = 1\<rparr>) \<and>
   try_rotate_with_kicks \<lparr>piece_x = 5, piece_y = 5, shape_index = 2, rotation = 1\<rparr> (create_grid [])
     = (True, \<lparr>piece_x = 5, piece_y = 5, shape_index = 2, rotation = 2\<rparr>) \<and>
   try_rotate_with_kicks \<lparr>piece_x = 5, piece_y = 5, shape_index = 2, rotation = 2\<rparr> (create_grid [])
     = (True, \<lparr>piece_x = 5, piece_y = 5, shape_index = 2, rotation = 3\<rparr>) \<and>
   try_rotate_with_kicks \<lparr>piece_x = 5, piece_y = 5, shape_index = 2, rotation = 3\<rparr> (create_grid [])
     = (True, \<lparr>piece_x = 5, piece_y = 5, shape_index = 2, rotation = 0\<rparr>)"
proof -
  let ?T = "\<lambda>r. \<lparr>piece_x = 5, piece_y = 5, shape_index = 2, rotation = r\<rparr>"
  have g0: "create_grid [] = replicate 20 (replicate 10 BLACK)"
    by (simp add: create_grid_def)
  have v: "valid_space (?T 0) (create_grid [])" "valid_space (?T 1) (create_grid [])"
    "valid_space (?T 2) (create_grid [])" "valid_space (?T 3) (create_grid [])"
    unfolding g0 valid_space_iff T_cells by simp_all
  have s: "try_rotate_with_kicks (?T 0) (create_grid []) = (True, ?T 1)"
    "try_rotate_with_kicks (?T 1) (create_grid []) = (True, ?T 2)"
    "try_rotate_with_kicks (?T 2) (create_grid []) = (True, ?T 3)"
    unfolding try_rotate_unrolled using v by simp_all
  have "\<exists>q. try_rotate_with_kicks (?T 3) (create_grid []) = (True, q) \<and> piece_x q = 5"
    unfolding try_rotate_unrolled using v by simp
  then obtain q where q: "try_rotate_with_kicks (?T 3) (create_grid []) = (True, q)" "piece_x q = 5"
    by blast
  have "q = ?T 0"
    using four_rotations_identity [of "?T 0" "create_grid []" "?T 1" "?T 2" "?T 3" q] s q
    by simp
  with s q show ?thesis by simp
qed

section \<open>Hard drop\<close>

lemma pivot_in_shape:
  assumes "i < 7" "r < 4"
  shows "(0, 0) \<in> set (SHAPES ! i ! r)"
proof -
  from assms have "i = 0 \<or> i = 1 \<or> i = 2 \<or> i = 3 \<or> i = 4 \<or> i = 5 \<or> i = 6" by arith
  moreover from assms have "r = 0 \<or> r = 1 \<or> r = 2 \<or> r = 3" by arith
  ultimately show ?thesis
    by (auto simp: SHAPES_def SHAPE_I_def SHAPE_O_def SHAPE_T_def SHAPE_S_def SHAPE_Z_def
          SHAPE_J_def SHAPE_L_def)
qed

lemma pivot_in_cells:
  assumes "shape_index p < 7"
  shows "(piece_x p, piece_y p) \<in> set (get_cells p)"
proof -
  have "nat (rotation p mod 4) < 4" by simp
  from pivot_in_shape[OF assms this]
  have "(0, 0) \<in> set (shape p ! nat (rotation p mod 4))" by (simp add: shape_def)
  then have "(\<lambda>(dx, dy). (piece_x p + dx, piece_y p + dy)) (0, 0) \<in> set (get_cells p)"
    unfolding get_cells_def Let_def set_map by (rule imageI)
  then show ?thesis by simp
qed

lemma valid_space_pivot_below:
  assumes "shape_index p < 7" "valid_space p g"
  shows "piece_y p < 20"
  using pivot_in_cells[OF assms(1)] assms(2) unfolding valid_space_iff by auto

lemma hard_drop_loop_result:
  assumes "shape_index p < 7"
  shows "\<exists>y'. hard_drop_loop p locked = Some (p\<lparr>piece_y := y'\<rparr>) \<and> piece_y p \<le> y' \<and>
           \<not> valid_space (p\<lparr>piece_y := y'\<rparr>) (create_grid locked) \<and>
           (\<forall>y. piece_y p \<le> y \<and> y < y' \<longrightarrow> valid_space (p\<lparr>piece_y := y\<rparr>) (create_grid locked))"
  using assms
proof (induction "nat (20 - piece_y p)" arbitrary: p rule: less_induct)
  case less
  show ?case
  proof (cases "valid_space p (create_grid locked)")
    case False
    then have "hard_drop_loop p locked = Some p"
      by (subst hard_drop_loop.simps) simp
    with False show ?thesis
      by (intro exI[of _ "piece_y p"]) auto
  next
    case True
    let ?q = "p\<lparr>piece_y := piece_y p + 1\<rparr>"
    from True less.prems have lt: "piece_y p < 20" by (rule valid_space_pivot_below[rotated])
    then have m: "nat (20 - piece_y ?q) < nat (20 - piece_y p)" by simp
    have "shape_index ?q < 7" using less.prems by simp
    from less.hyps[OF m this] obtain y' where
      y': "hard_drop_loop ?q locked = Some (?q\<lparr>piece_y := y'\<rparr>)" "piece_y ?q \<le> y'"
          "\<not> valid_space (?q\<lparr>piece_y := y'\<rparr>) (create_grid locked)"
          "\<forall>y. piece_y ?q \<le> y \<and> y < y' \<longrightarrow> valid_space (?q\<lparr>piece_y := y\<rparr>) (create_grid locked)"
      by blast
    have "hard_drop_loop p locked = Some (p\<lparr>piece_y := y'\<rparr>)"
      using True y'(1) by (subst hard_drop_loop.simps) simp
    moreover have "piece_y p \<le> y'" using y'(2) by simp
    moreover have "\<not> valid_space (p\<lparr>piece_y := y'\<rparr>) (create_grid locked)" using y'(3) by simp
    moreover have "valid_space (p\<lparr>piece_y := y\<rparr>) (create_grid locked)"
      if "piece_y p \<le> y" "y < y'" for y
    proof (cases "y = piece_y p")
      case True
      with \<open>valid_space p (create_grid locked)\<close> show ?thesis by simp
    next
      case False
      with that have "piece_y ?q \<le> y \<and> y < y'" by simp
      with y'(4) show ?thesis by simp
    qed
    ultimately show ?thesis by blast
  qed
qed

lemma I_cells:
  "get_cells \<lparr>piece_x = x, piece_y = y, shape_index = 0, rotation = 0\<rparr> =
     [(x, y), (x - 1, y), (x + 1, y), (x + 2, y)]"
  by (simp add: get_cells_def shape_def SHAPES_def SHAPE_I_def)

text \<open>
  C10. For every board and every piece (of one of the seven shapes) whose placement is
  valid on that board, the hard drop terminates: it returns a piece whose placement is
  valid and from which one more row down is invalid, with \<open>piece_x\<close> and the rotation
  index unchanged.
\<close>

theorem hard_drop_lands:
  assumes "shape_index p < length SHAPES"
    and "valid_space p (create_grid locked)"
  shows "\<exists>q. hard_drop p locked = Some q \<and>
              valid_space q (create_grid locked) \<and>
              \<not> valid_space (q\<lparr>piece_y := piece_y q + 1\<rparr>) (create_grid locked) \<and>
              piece_x q = piece_x p \<and> rotation q = rotation p \<and> piece_y p \<le> piece_y q"
proof -
  from assms(1) have i: "shape_index p < 7" by (simp add: SHAPES_def)
  from hard_drop_loop_result[OF i, of locked] obtain y' where
    y': "hard_drop_loop p locked = Some (p\<lparr>piece_y := y'\<rparr>)" "piece_y p \<le> y'"
        "\<not> valid_space (p\<lparr>piece_y := y'\<rparr>) (create_grid locked)"
        "\<forall>y. piece_y p \<le> y \<and> y < y' \<longrightarrow> valid_space (p\<lparr>piece_y := y\<rparr>) (create_grid locked)"
    by blast
  from y'(3) assms(2) have "y' \<noteq> piece_y p" by auto
  with y'(2) have lt: "piece_y p \<le> y' - 1" "y' - 1 < y'" by simp_all
  let ?q = "p\<lparr>piece_y := y' - 1\<rparr>"
  have "hard_drop p locked = Some ?q" by (simp add: hard_drop_def y'(1))
  moreover have "valid_space ?q (create_grid locked)" using y'(4) lt by blast
  moreover have "\<not> valid_space (?q\<lparr>piece_y := piece_y ?q + 1\<rparr>) (create_grid locked)"
    using y'(3) by simp
  ultimately show ?thesis using lt by simp
qed

theorem hard_drop_lands_witness:
  "shape_index (new_Piece 5 0 0) < length SHAPES \<and>
   valid_space (new_Piece 5 0 0) (create_grid []) \<and>
   (\<exists>q. hard_drop (new_Piece 5 0 0) [] = Some q \<and> valid_space q (create_grid []) \<and>
        \<not> valid_space (q\<lparr>piece_y := piece_y q + 1\<rparr>) (create_grid []) \<and>
        piece_x q = 5 \<and> rotation q = 0)"
proof -
  have g0: "create_grid [] = replicate 20 (replicate 10 BLACK)"
    by (simp add: create_grid_def)
  have i: "shape_index (new_Piece 5 0 0) < length SHAPES"
    by (simp add: new_Piece_def SHAPES_def)
  have v: "valid_space (new_Piece 5 0 0) (create_grid [])"
    unfolding g0 valid_space_iff new_Piece_def I_cells by simp
  from hard_drop_lands[OF i v] have "\<exists>q. hard_drop (new_Piece 5 0 0) [] = Some q \<and> valid_space q (create_grid []) \<and>
        \<not> valid_space (q\<lparr>piece_y := piece_y q + 1\<rparr>) (create_grid []) \<and>
        piece_x q = 5 \<and> rotation q = 0"
    by (auto simp: new_Piece_def)
  with i v show ?thesis by blast
qed

section \<open>The dense grid and the rows to clear\<close>

lemma create_grid_step_dims:
  assumes "length g = 20 \<and> (\<forall>row \<in> set g. length row = 10)"
  shows "length (fold (\<lambda>((x, y), c) g.
            if 0 \<le> y \<and> y < GRID_HEIGHT \<and> 0 \<le> x \<and> x < GRID_WIDTH
            then g[nat y := (g ! nat y)[nat x := c]] else g) locked g) = 20 \<and>
         (\<forall>row \<in> set (fold (\<lambda>((x, y), c) g.
            if 0 \<le> y \<and> y < GRID_HEIGHT \<and> 0 \<le> x \<and> x < GRID_WIDTH
            then g[nat y := (g ! nat y)[nat x := c]] else g) locked g). length row = 10)"
  using assms
proof (induction locked arbitrary: g)
  case Nil
  then show ?case by simp
next
  case (Cons kv locked)
  obtain x y c where kv: "kv = ((x, y), c)" by (cases kv) auto
  let ?g = "if 0 \<le> y \<and> y < GRID_HEIGHT \<and> 0 \<le> x \<and> x < GRID_WIDTH
            then g[nat y := (g ! nat y)[nat x := c]] else g"
  have "length ?g = 20 \<and> (\<forall>row \<in> set ?g. length row = 10)"
    using Cons.prems by (auto dest!: set_update_subset_insert[THEN subsetD])
  from Cons.IH[OF this] show ?case by (simp add: kv)
qed

lemma create_grid_dims:
  "length (create_grid locked) = 20"
  "y < 20 \<Longrightarrow> length (create_grid locked ! y) = 10"
proof -
  have "length (replicate (nat GRID_HEIGHT) (replicate (nat GRID_WIDTH) BLACK)) = 20 \<and>
     (\<forall>row \<in> set (replicate (nat GRID_HEIGHT) (replicate (nat GRID_WIDTH) BLACK)). length row = 10)"
    by simp
  from create_grid_step_dims[OF this, of locked]
  have *: "length (create_grid locked) = 20 \<and> (\<forall>row \<in> set (create_grid locked). length row = 10)"
    unfolding create_grid_def .
  then show "length (create_grid locked) = 20" by simp
  show "length (create_grid locked ! y) = 10" if "y < 20"
    using * that by (metis nth_mem)
qed

lemma row_complete_iff:
  assumes "y < 20"
  shows "BLACK \<notin> set (create_grid locked ! y) \<longleftrightarrow> (\<forall>x < 10. create_grid locked ! y ! x \<noteq> BLACK)"
  using create_grid_dims(2)[OF assms, of locked]
  by (metis in_set_conv_nth)

lemma set_rows_to_clear:
  "set (rows_to_clear (create_grid locked)) =
     {y. y < 20 \<and> (\<forall>x < 10. create_grid locked ! y ! x \<noteq> BLACK)}"
  unfolding rows_to_clear_def using row_complete_iff[of _ locked] by auto

text \<open>
  C8. For every board with no completed row (every row of the dense grid has a
  \<open>BLACK\<close> cell), \<open>clear_rows\<close> returns 0 and the locked-cell store is the one it
  was given, unchanged.
\<close>

theorem clear_rows_nothing_complete:
  assumes "\<forall>y < 20. \<exists>x < 10. create_grid locked ! y ! x = BLACK"
  shows "clear_rows (create_grid locked) locked = Some (0, locked)"
proof -
  from assms have "set (rows_to_clear (create_grid locked)) = {}"
    unfolding set_rows_to_clear by blast
  then show ?thesis by (simp add: clear_rows_def)
qed

theorem clear_rows_nothing_complete_witness:
  "clear_rows (create_grid [((0, 19), COLOR_I), ((1, 19), COLOR_I)])
      [((0, 19), COLOR_I), ((1, 19), COLOR_I)]
     = Some (0, [((0, 19), COLOR_I), ((1, 19), COLOR_I)])"
proof -
  have "create_grid [((0, 19), COLOR_I), ((1, 19), COLOR_I)] ! y ! 2 = BLACK" if "y < 20" for y
    using that by (simp add: create_grid_def nth_list_update)
  then have "\<forall>y < 20. \<exists>x < 10. create_grid [((0, 19), COLOR_I), ((1, 19), COLOR_I)] ! y ! x = BLACK"
    by (intro allI impI exI[of _ 2]) simp
  then show ?thesis by (rule clear_rows_nothing_complete)
qed

section \<open>Locking a piece\<close>

lemma in_bounds_cells_iff:
  "in_bounds_cells cs \<longleftrightarrow> (\<forall>(x, y) \<in> set cs. 0 \<le> x \<and> x < GRID_WIDTH \<and> y < GRID_HEIGHT)"
  by (induction cs rule: in_bounds_cells.induct) auto

lemma valid_space_in_bounds: "valid_space p g \<Longrightarrow> in_bounds p"
  unfolding in_bounds_def in_bounds_cells_iff valid_space_iff by blast

lemma keys_fold_update:
  "fst ` set (fold (\<lambda>pos d. AList.update pos c d) cs locked) = fst ` set locked \<union> set cs"
  by (induction cs arbitrary: locked) (auto simp: dom_update)


lemma distinct_fold_update:
  "distinct (map fst locked) \<Longrightarrow> distinct (map fst (fold (\<lambda>pos d. AList.update pos c d) cs locked))"
  by (induction cs arbitrary: locked) (auto simp: distinct_update)




section \<open>Row clearing\<close>

subsection \<open>Deleting the completed rows\<close>

lemma set_delete: "set (AList.delete k d) = {kv \<in> set d. fst kv \<noteq> k}"
  by (auto simp: AList.delete_eq)

lemma set_delete_cols:
  "set (fold (\<lambda>x d'. AList.delete (int x, y) d') xs d) =
     {kv \<in> set d. fst kv \<notin> (\<lambda>x. (int x, y)) ` set xs}"
  by (induction xs arbitrary: d) (auto simp: set_delete)

lemma distinct_delete_cols:
  "distinct (map fst d) \<Longrightarrow> distinct (map fst (fold (\<lambda>x d'. AList.delete (int x, y) d') xs d))"
  by (induction xs arbitrary: d) (auto simp: distinct_delete)

lemma set_delete_rows:
  "set (delete_rows rows d) =
     {kv \<in> set d. \<not> (\<exists>x < 10. \<exists>r \<in> set rows. fst kv = (int x, int r))}"
proof (induction rows arbitrary: d)
  case Nil
  show ?case by (simp add: delete_rows_def)
next
  case (Cons r rows)
  let ?d = "fold (\<lambda>x d'. AList.delete (int x, int r) d') [0..<nat GRID_WIDTH] d"
  have "delete_rows (r # rows) d = delete_rows rows ?d"
    by (simp add: delete_rows_def)
  then have "set (delete_rows (r # rows) d) =
     {kv \<in> set ?d. \<not> (\<exists>x < 10. \<exists>r \<in> set rows. fst kv = (int x, int r))}"
    by (simp only: Cons.IH)
  also have "set ?d = {kv \<in> set d. fst kv \<notin> (\<lambda>x. (int x, int r)) ` set [0..<nat GRID_WIDTH]}"
    by (rule set_delete_cols)
  finally show ?case by (auto simp: image_iff)
qed

lemma distinct_delete_rows:
  "distinct (map fst d) \<Longrightarrow> distinct (map fst (delete_rows rows d))"
proof (induction rows arbitrary: d)
  case Nil
  then show ?case by (simp add: delete_rows_def)
next
  case (Cons r rows)
  let ?d = "fold (\<lambda>x d'. AList.delete (int x, int r) d') [0..<nat GRID_WIDTH] d"
  have "delete_rows (r # rows) d = delete_rows rows ?d"
    by (simp add: delete_rows_def)
  moreover have "distinct (map fst ?d)" using Cons.prems by (rule distinct_delete_cols)
  ultimately show ?case by (simp only: Cons.IH)
qed

lemma set_delete_rows_in_range:
  assumes "\<forall>((x, y), c) \<in> set d. 0 \<le> x \<and> x < 10"
  shows "set (delete_rows rows d) = {kv \<in> set d. snd (fst kv) \<notin> int ` set rows}"
proof -
  have "(\<exists>x < 10. \<exists>r \<in> set rows. fst kv = (int x, int r)) \<longleftrightarrow> snd (fst kv) \<in> int ` set rows"
    if "kv \<in> set d" for kv
  proof -
    obtain x y c where kv: "kv = ((x, y), c)" by (cases kv) auto
    with that assms have x: "0 \<le> x" "x < 10" by auto
    show ?thesis
    proof
      assume "\<exists>x < 10. \<exists>r \<in> set rows. fst kv = (int x, int r)"
      then show "snd (fst kv) \<in> int ` set rows" by auto
    next
      assume "snd (fst kv) \<in> int ` set rows"
      then obtain r where r: "r \<in> set rows" "y = int r" by (auto simp: kv)
      from x have "nat x < 10" "x = int (nat x)" by auto
      with r show "\<exists>x < 10. \<exists>r \<in> set rows. fst kv = (int x, int r)"
        unfolding kv by auto
    qed
  qed
  then show ?thesis unfolding set_delete_rows by blast
qed

lemma shift_of_card:
  assumes "distinct rows"
  shows "shift_of rows y = card {r \<in> set rows. y < int r}"
  unfolding shift_of_def distinct_length_filter[OF assms]
  by (rule arg_cong[where f = card]) auto

lemma shift_of_mono_strict:
  assumes "distinct rows" "y < y'" "y' \<notin> int ` set rows"
  shows "y + int (shift_of rows y) < y' + int (shift_of rows y')"
proof -
  let ?A = "{r \<in> set rows. y < int r}"
  let ?B = "{r \<in> set rows. y' < int r}"
  let ?C = "{r \<in> set rows. y < int r \<and> int r < y'}"
  have split: "?A = ?B \<union> ?C" using assms(2,3) by force
  have disj: "?B \<inter> ?C = {}" by auto
  have fin: "finite ?B" "finite ?C" by auto
  have "int ` ?C \<subseteq> {y<..<y'}" by auto
  then have "card (int ` ?C) \<le> card {y<..<y'}" by (intro card_mono) auto
  moreover have "card (int ` ?C) = card ?C" by (intro card_image) (auto simp: inj_on_def)
  ultimately have c: "int (card ?C) \<le> y' - y - 1" using assms(2) by simp
  have "card ?A = card ?B + card ?C"
    unfolding split using fin disj by (rule card_Un_disjoint)
  then show ?thesis
    unfolding shift_of_card[OF assms(1)] using c by simp
qed

lemma moved_inj:
  assumes "distinct rows" "snd k \<notin> int ` set rows" "snd k' \<notin> int ` set rows"
    and "moved rows k = moved rows k'"
  shows "k = k'"
proof -
  from assms(4) have x: "fst k = fst k'"
    and y: "snd k + int (shift_of rows (snd k)) = snd k' + int (shift_of rows (snd k'))"
    by (simp_all add: moved_def)
  have "snd k = snd k'"
  proof (rule ccontr)
    assume "snd k \<noteq> snd k'"
    then consider "snd k < snd k'" | "snd k' < snd k" by linarith
    then show False
    proof cases
      case 1
      from shift_of_mono_strict[OF assms(1) 1 assms(3)] y show False by simp
    next
      case 2
      from shift_of_mono_strict[OF assms(1) 2 assms(2)] y show False by simp
    qed
  qed
  with x show ?thesis by (simp add: prod_eq_iff)
qed

subsection \<open>Moving the remaining cells down\<close>

text \<open>
  The keys are walked by descending \<open>y\<close>. A key that moves lands strictly below every
  key still to be walked, and the map \<open>moved\<close> is injective on the rows that are not
  cleared, so no move writes onto a cell that is still in place or already moved.
\<close>

lemma set_update_fresh:
  assumes "k \<notin> fst ` set d"
  shows "set (AList.update k v d) = insert (k, v) (set d)"
  using assms by (induction d) auto

lemma keys_delete: "fst ` set (AList.delete k d) = fst ` set d - {k}"
  by (force simp: set_delete)

lemma split_out:
  assumes "(k, c) \<in> D" "\<forall>kv \<in> D. fst kv = k \<longrightarrow> kv = (k, c)" "k \<notin> K"
  shows "{kv \<in> D. fst kv \<notin> K} = insert (k, c) {kv \<in> D. fst kv \<notin> insert k K}"
    and "{kv \<in> D. fst kv \<in> insert k K} = insert (k, c) {kv \<in> D. fst kv \<in> K}"
  using assms by fastforce+

lemma step_same:
  assumes "(k, c) \<in> D" "\<forall>kv \<in> D. fst kv = k \<longrightarrow> kv = (k, c)" "k \<notin> K" "m k = k"
  shows "{kv \<in> D. fst kv \<notin> K} \<union> (\<lambda>kv. (m (fst kv), snd kv)) ` {kv \<in> D. fst kv \<in> K} =
         {kv \<in> D. fst kv \<notin> insert k K} \<union>
           (\<lambda>kv. (m (fst kv), snd kv)) ` {kv \<in> D. fst kv \<in> insert k K}"
  unfolding split_out[OF assms(1-3)] using assms(4) by simp

lemma step_moved:
  assumes "(k, c) \<in> D" "\<forall>kv \<in> D. fst kv = k \<longrightarrow> kv = (k, c)" "k \<notin> K" "t \<notin> K" "m k = t"
    and "D1 = insert (t, c) {kv \<in> D. fst kv \<noteq> k}"
  shows "{kv \<in> D1. fst kv \<notin> K} \<union> (\<lambda>kv. (m (fst kv), snd kv)) ` {kv \<in> D1. fst kv \<in> K} =
         {kv \<in> D. fst kv \<notin> insert k K} \<union>
           (\<lambda>kv. (m (fst kv), snd kv)) ` {kv \<in> D. fst kv \<in> insert k K}"
proof -
  have a: "{kv \<in> D1. fst kv \<notin> K} = insert (t, c) {kv \<in> D. fst kv \<notin> insert k K}"
    unfolding assms(6) using assms(4) by fastforce
  have b: "{kv \<in> D1. fst kv \<in> K} = {kv \<in> D. fst kv \<in> K}"
    unfolding assms(6) using assms(3,4) by fastforce
  show ?thesis
    unfolding a b split_out(2)[OF assms(1-3)] using assms(5) by simp
qed

lemma move_down_correct:
  assumes "distinct (map fst d)" and "distinct ks" and "set ks \<subseteq> fst ` set d"
    and "sorted (map (\<lambda>p. - snd p) ks)"
    and "distinct rows"
    and "\<forall>k \<in> set ks. snd k \<notin> int ` set rows"
    and "\<forall>k \<in> set ks. \<forall>k' \<in> fst ` set d - set ks. moved rows k \<noteq> k'"
  shows "\<exists>d'. move_down rows ks d = Some d' \<and> distinct (map fst d') \<and>
           set d' = {kv \<in> set d. fst kv \<notin> set ks} \<union>
                    (\<lambda>kv. (moved rows (fst kv), snd kv)) ` {kv \<in> set d. fst kv \<in> set ks}"
  using assms
proof (induction ks arbitrary: d)
  case Nil
  then show ?case by simp
next
  case (Cons k ks)
  obtain x y where k: "k = (x, y)" by (cases k)
  from Cons.prems(2) have kks: "k \<notin> set ks" and dks: "distinct ks" by simp_all
  from Cons.prems(3) have kd: "k \<in> fst ` set d" and ksd: "set ks \<subseteq> fst ` set d" by simp_all
  from Cons.prems(4) have le: "\<forall>k2 \<in> set ks. snd k2 \<le> y" and sks: "sorted (map (\<lambda>p. - snd p) ks)"
    by (auto simp: k)
  from Cons.prems(6) have ky: "snd k \<notin> int ` set rows"
    and ksy: "\<forall>k \<in> set ks. snd k \<notin> int ` set rows" by simp_all
  have inj: "moved rows k2 \<noteq> moved rows k" if "k2 \<in> set ks" for k2
  proof
    assume "moved rows k2 = moved rows k"
    with moved_inj[OF Cons.prems(5) _ ky this] ksy that have "k2 = k" by blast
    with that kks show False by simp
  qed
  from kd obtain c where c: "(k, c) \<in> set d" by auto
  with Cons.prems(1) have mc: "map_of d k = Some c" by simp
  have only: "\<forall>kv \<in> set d. fst kv = k \<longrightarrow> kv = (k, c)"
  proof (intro ballI impI)
    fix kv assume "kv \<in> set d" "fst kv = k"
    then have "(k, snd kv) \<in> set d" by (metis prod.collapse)
    with c Cons.prems(1) have "snd kv = c" by (metis eq_key_imp_eq_value)
    with \<open>fst kv = k\<close> show "kv = (k, c)" by (metis prod.collapse)
  qed
  show ?case
  proof (cases "shift_of rows y > 0")
    case False
    then have mk: "moved rows k = k" by (simp add: moved_def k)
    have free: "\<forall>k2 \<in> set ks. \<forall>k' \<in> fst ` set d - set ks. moved rows k2 \<noteq> k'"
    proof (intro ballI)
      fix k2 k' assume k2: "k2 \<in> set ks" and k': "k' \<in> fst ` set d - set ks"
      show "moved rows k2 \<noteq> k'"
      proof (cases "k' = k")
        case True
        with inj[OF k2] mk show ?thesis by simp
      next
        case False
        with k' have "k' \<in> fst ` set d - set (k # ks)" by simp
        with Cons.prems(7) k2 show ?thesis by simp
      qed
    qed
    from Cons.IH[OF Cons.prems(1) dks ksd sks Cons.prems(5) ksy free] obtain d' where
      d': "move_down rows ks d = Some d'" "distinct (map fst d')"
          "set d' = {kv \<in> set d. fst kv \<notin> set ks} \<union>
                    (\<lambda>kv. (moved rows (fst kv), snd kv)) ` {kv \<in> set d. fst kv \<in> set ks}"
      by blast
    have "move_down rows (k # ks) d = Some d'"
      using False d'(1) by (simp add: k)
    moreover have "set d' = {kv \<in> set d. fst kv \<notin> set (k # ks)} \<union>
                    (\<lambda>kv. (moved rows (fst kv), snd kv)) ` {kv \<in> set d. fst kv \<in> set (k # ks)}"
      unfolding d'(3) using step_same[where m = "moved rows", OF c only kks mk] by simp
    ultimately show ?thesis using d'(2) by blast
  next
    case True
    let ?t = "moved rows k"
    let ?d1 = "AList.update ?t c (AList.delete k d)"
    have t: "?t = (x, y + int (shift_of rows y))" by (simp add: moved_def k)
    have t': "(x, y + int (shift_of rows y)) = moved rows (x, y)" by (simp add: moved_def)
    from True have tk: "?t \<noteq> k" by (simp add: moved_def k)
    have tks: "?t \<notin> set ks"
    proof
      assume "?t \<in> set ks"
      with le have "snd ?t \<le> y" by blast
      with True show False by (simp add: t)
    qed
    have tfree: "?t \<notin> fst ` set (AList.delete k d)"
    proof
      assume "?t \<in> fst ` set (AList.delete k d)"
      then have "?t \<in> fst ` set d - set (k # ks)"
        using tk tks by (simp add: keys_delete)
      with Cons.prems(7) show False by auto
    qed
    have set1: "set ?d1 = insert (?t, c) {kv \<in> set d. fst kv \<noteq> k}"
      by (simp add: set_update_fresh[OF tfree] set_delete)
    have dist1: "distinct (map fst ?d1)"
      by (intro distinct_update distinct_delete Cons.prems(1))
    have keys1: "fst ` set ?d1 = insert ?t (fst ` set d - {k})"
      unfolding set1 by force
    have ksd1: "set ks \<subseteq> fst ` set ?d1"
      unfolding keys1 using ksd kks by auto
    have free: "\<forall>k2 \<in> set ks. \<forall>k' \<in> fst ` set ?d1 - set ks. moved rows k2 \<noteq> k'"
    proof (intro ballI)
      fix k2 k' assume k2: "k2 \<in> set ks" and k': "k' \<in> fst ` set ?d1 - set ks"
      show "moved rows k2 \<noteq> k'"
      proof (cases "k' = ?t")
        case True
        with inj[OF k2] show ?thesis by simp
      next
        case False
        with k' have "k' \<in> fst ` set d - set (k # ks)" unfolding keys1 by auto
        with Cons.prems(7) k2 show ?thesis by simp
      qed
    qed
    from Cons.IH[OF dist1 dks ksd1 sks Cons.prems(5) ksy free] obtain d' where
      d': "move_down rows ks ?d1 = Some d'" "distinct (map fst d')"
          "set d' = {kv \<in> set ?d1. fst kv \<notin> set ks} \<union>
                    (\<lambda>kv. (moved rows (fst kv), snd kv)) ` {kv \<in> set ?d1. fst kv \<in> set ks}"
      by blast
    have "move_down rows (k # ks) d = Some d'"
      using True d'(1) mc unfolding k by (simp add: Let_def t')
    moreover have "set d' = {kv \<in> set d. fst kv \<notin> set (k # ks)} \<union>
                    (\<lambda>kv. (moved rows (fst kv), snd kv)) ` {kv \<in> set d. fst kv \<in> set (k # ks)}"
      unfolding d'(3) using step_moved[where m = "moved rows", OF c only kks tks refl set1] by simp
    ultimately show ?thesis using d'(2) by blast
  qed
qed

lemma distinct_rows_to_clear: "distinct (rows_to_clear g)"
  by (simp add: rows_to_clear_def)

lemma moved_Nil: "moved [] k = k"
  by (simp add: moved_def shift_of_def)

lemma clear_rows_general:
  assumes "distinct (map fst locked)" and "\<forall>((x, y), c) \<in> set locked. 0 \<le> x \<and> x < 10"
  shows "\<exists>d'. clear_rows g locked = Some (length (rows_to_clear g), d') \<and> distinct (map fst d') \<and>
           set d' = (\<lambda>kv. (moved (rows_to_clear g) (fst kv), snd kv)) `
                      {kv \<in> set locked. snd (fst kv) \<notin> int ` set (rows_to_clear g)}"
proof (cases "rows_to_clear g = []")
  case True
  have "set locked = (\<lambda>kv. (moved [] (fst kv), snd kv)) ` {kv \<in> set locked. snd (fst kv) \<notin> int ` set []}"
    by (simp add: moved_Nil)
  with True assms(1) show ?thesis by (simp add: clear_rows_def)
next
  case False
  let ?rows = "rows_to_clear g"
  let ?d = "delete_rows ?rows locked"
  let ?ks = "sorted_keys ?d"
  have sd: "set ?d = {kv \<in> set locked. snd (fst kv) \<notin> int ` set ?rows}"
    using assms(2) by (rule set_delete_rows_in_range)
  have dd: "distinct (map fst ?d)" using assms(1) by (rule distinct_delete_rows)
  have dks: "distinct ?ks" using dd by (simp add: sorted_keys_def)
  have sks: "set ?ks = fst ` set ?d" by (simp add: sorted_keys_def)
  have srt: "sorted (map (\<lambda>p. - snd p) ?ks)" unfolding sorted_keys_def by (rule sorted_sort_key)
  have ky: "\<forall>k \<in> set ?ks. snd k \<notin> int ` set ?rows"
    unfolding sks sd by auto
  have free: "\<forall>k \<in> set ?ks. \<forall>k' \<in> fst ` set ?d - set ?ks. moved ?rows k \<noteq> k'"
    unfolding sks by simp
  from move_down_correct[OF dd dks _ srt distinct_rows_to_clear ky free] sks
  obtain d' where d': "move_down ?rows ?ks ?d = Some d'" "distinct (map fst d')"
    "set d' = {kv \<in> set ?d. fst kv \<notin> set ?ks} \<union>
              (\<lambda>kv. (moved ?rows (fst kv), snd kv)) ` {kv \<in> set ?d. fst kv \<in> set ?ks}"
    by blast
  have a: "{kv \<in> set ?d. fst kv \<notin> set ?ks} = {}" unfolding sks by auto
  have b: "{kv \<in> set ?d. fst kv \<in> set ?ks} = set ?d" unfolding sks by auto
  have "clear_rows g locked = Some (length ?rows, d')"
    using False d'(1) by (simp add: clear_rows_def Let_def)
  moreover have "set d' = (\<lambda>kv. (moved ?rows (fst kv), snd kv)) `
                      {kv \<in> set locked. snd (fst kv) \<notin> int ` set ?rows}"
    using d'(3)[unfolded a b] unfolding sd by simp
  ultimately show ?thesis using d'(2) by blast
qed

lemma clear_rows_map:
  assumes "distinct (map fst locked)" and "\<forall>((x, y), c) \<in> set locked. 0 \<le> x \<and> x < 10"
  shows "\<exists>d'. clear_rows g locked = Some (length (rows_to_clear g), d') \<and> distinct (map fst d') \<and>
     (\<forall>x y c. map_of d' (x, y) = Some c \<longleftrightarrow>
        (\<exists>y0. map_of locked (x, y0) = Some c \<and> y0 \<notin> int ` set (rows_to_clear g) \<and>
              y = y0 + int (shift_of (rows_to_clear g) y0))) \<and>
     length d' = length (filter (\<lambda>kv. snd (fst kv) \<notin> int ` set (rows_to_clear g)) locked)"
proof -
  let ?rows = "rows_to_clear g"
  let ?A = "{kv \<in> set locked. snd (fst kv) \<notin> int ` set ?rows}"
  let ?F = "\<lambda>kv. (moved ?rows (fst kv), snd kv)"
  from clear_rows_general[OF assms, of g] obtain d' where
    d': "clear_rows g locked = Some (length ?rows, d')" "distinct (map fst d')" "set d' = ?F ` ?A"
    by blast
  have m: "map_of d' (x, y) = Some c \<longleftrightarrow>
        (\<exists>y0. map_of locked (x, y0) = Some c \<and> y0 \<notin> int ` set ?rows \<and>
              y = y0 + int (shift_of ?rows y0))" for x y c
  proof -
    have "map_of d' (x, y) = Some c \<longleftrightarrow> ((x, y), c) \<in> ?F ` ?A"
      using d'(2) by (simp add: d'(3)[symmetric])
    also have "\<dots> \<longleftrightarrow> (\<exists>y0. ((x, y0), c) \<in> set locked \<and> y0 \<notin> int ` set ?rows \<and>
              y = y0 + int (shift_of ?rows y0))"
    proof
      assume "((x, y), c) \<in> ?F ` ?A"
      then obtain kv where kv: "kv \<in> ?A" "((x, y), c) = ?F kv" by blast
      obtain x0 y0 c0 where k0: "kv = ((x0, y0), c0)" by (cases kv) auto
      from kv show "\<exists>y0. ((x, y0), c) \<in> set locked \<and> y0 \<notin> int ` set ?rows \<and>
              y = y0 + int (shift_of ?rows y0)"
        unfolding k0 by (intro exI[of _ y0]) (simp add: moved_def)
    next
      assume "\<exists>y0. ((x, y0), c) \<in> set locked \<and> y0 \<notin> int ` set ?rows \<and>
              y = y0 + int (shift_of ?rows y0)"
      then obtain y0 where y0: "((x, y0), c) \<in> set locked" "y0 \<notin> int ` set ?rows"
        "y = y0 + int (shift_of ?rows y0)" by blast
      then have "((x, y0), c) \<in> ?A" by simp
      moreover have "((x, y), c) = ?F ((x, y0), c)" using y0(3) by (simp add: moved_def)
      ultimately show "((x, y), c) \<in> ?F ` ?A" by (rule rev_image_eqI)
    qed
    also have "\<dots> \<longleftrightarrow> (\<exists>y0. map_of locked (x, y0) = Some c \<and> y0 \<notin> int ` set ?rows \<and>
              y = y0 + int (shift_of ?rows y0))"
      using assms(1) by simp
    finally show ?thesis .
  qed
  have inj: "inj_on ?F ?A"
  proof (rule inj_onI)
    fix a b assume a: "a \<in> ?A" and b: "b \<in> ?A" and e: "?F a = ?F b"
    then have "moved ?rows (fst a) = moved ?rows (fst b)" "snd a = snd b" by simp_all
    with moved_inj[OF distinct_rows_to_clear, of "fst a" g "fst b"] a b
    show "a = b" by (simp add: prod_eq_iff)
  qed
  have "distinct d'" using d'(2) by (simp add: distinct_map)
  then have "length d' = card (set d')" by (simp add: distinct_card)
  also have "\<dots> = card ?A" unfolding d'(3) using inj by (rule card_image)
  also have "?A = set (filter (\<lambda>kv. snd (fst kv) \<notin> int ` set ?rows) locked)" by auto
  also have "card \<dots> = length (filter (\<lambda>kv. snd (fst kv) \<notin> int ` set ?rows) locked)"
    using assms(1) by (intro distinct_card distinct_filter) (simp add: distinct_map)
  finally have "length d' = length (filter (\<lambda>kv. snd (fst kv) \<notin> int ` set ?rows) locked)" .
  with d'(1,2) m show ?thesis by blast
qed

lemma completed_rows_any:
  "int ` set (rows_to_clear g) = {y. 0 \<le> y \<and> y < 20 \<and> BLACK \<notin> set (g ! nat y)}"
proof -
  have "y \<in> int ` set (rows_to_clear g) \<longleftrightarrow> 0 \<le> y \<and> y < 20 \<and> BLACK \<notin> set (g ! nat y)" for y
  proof
    assume "y \<in> int ` set (rows_to_clear g)"
    then show "0 \<le> y \<and> y < 20 \<and> BLACK \<notin> set (g ! nat y)"
      by (auto simp: rows_to_clear_def)
  next
    assume a: "0 \<le> y \<and> y < 20 \<and> BLACK \<notin> set (g ! nat y)"
    then have "nat y < 20" by linarith
    with a have "nat y \<in> set (rows_to_clear g)" by (simp add: rows_to_clear_def)
    then have "int (nat y) \<in> int ` set (rows_to_clear g)" by (rule imageI)
    with a show "y \<in> int ` set (rows_to_clear g)" by simp
  qed
  then show ?thesis by blast
qed

lemma completed_rows_board:
  "int ` set (rows_to_clear (create_grid locked)) =
     {y. 0 \<le> y \<and> y < 20 \<and> (\<forall>x < 10. create_grid locked ! nat y ! x \<noteq> BLACK)}"
proof -
  have "BLACK \<notin> set (create_grid locked ! nat y) \<longleftrightarrow> (\<forall>x < 10. create_grid locked ! nat y ! x \<noteq> BLACK)"
    if "0 \<le> y" "y < 20" for y
    using that by (intro row_complete_iff) simp
  then show ?thesis unfolding completed_rows_any by blast
qed

lemma length_rows_card:
  "length (rows_to_clear g) = card (int ` set (rows_to_clear g))"
proof -
  have "card (int ` set (rows_to_clear g)) = card (set (rows_to_clear g))"
    by (intro card_image) (simp add: inj_on_def)
  then show ?thesis by (simp add: distinct_card[OF distinct_rows_to_clear])
qed

lemma shift_of_card_int:
  "shift_of (rows_to_clear g) y = card {r \<in> int ` set (rows_to_clear g). y < r}"
proof -
  have "{r \<in> int ` set (rows_to_clear g). y < r} = int ` {r \<in> set (rows_to_clear g). y < int r}"
    by auto
  moreover have "card (int ` {r \<in> set (rows_to_clear g). y < int r}) =
      card {r \<in> set (rows_to_clear g). y < int r}"
    by (intro card_image) (simp add: inj_on_def)
  ultimately show ?thesis by (simp add: shift_of_card[OF distinct_rows_to_clear])
qed

subsection \<open>The claims on row clearing\<close>

text \<open>
  C3, as stated, fails in its example: with row 5 the only completed row and a locked
  cell at \<open>(3, 4)\<close>, row 5 is not empty after the clear, since the cell of row 4
  has moved into it.
\<close>

theorem clear_rows_row_5_refilled_counterexample:
  "rows_to_clear (create_grid
      [((0, 5), COLOR_O), ((1, 5), COLOR_O), ((2, 5), COLOR_T), ((3, 5), COLOR_T),
       ((4, 5), COLOR_I), ((5, 5), COLOR_I), ((6, 5), COLOR_I), ((7, 5), COLOR_I),
       ((8, 5), COLOR_L), ((9, 5), COLOR_L), ((3, 4), COLOR_S)]) = [5] \<and>
   clear_rows (create_grid
      [((0, 5), COLOR_O), ((1, 5), COLOR_O), ((2, 5), COLOR_T), ((3, 5), COLOR_T),
       ((4, 5), COLOR_I), ((5, 5), COLOR_I), ((6, 5), COLOR_I), ((7, 5), COLOR_I),
       ((8, 5), COLOR_L), ((9, 5), COLOR_L), ((3, 4), COLOR_S)])
      [((0, 5), COLOR_O), ((1, 5), COLOR_O), ((2, 5), COLOR_T), ((3, 5), COLOR_T),
       ((4, 5), COLOR_I), ((5, 5), COLOR_I), ((6, 5), COLOR_I), ((7, 5), COLOR_I),
       ((8, 5), COLOR_L), ((9, 5), COLOR_L), ((3, 4), COLOR_S)]
     = Some (1, [((3, 5), COLOR_S)]) \<and>
   map_of ([((3, 5), COLOR_S)] :: locked) (3, 5) = Some COLOR_S"
proof -
  let ?B = "[((0, 5), COLOR_O), ((1, 5), COLOR_O), ((2, 5), COLOR_T), ((3, 5), COLOR_T),
       ((4, 5), COLOR_I), ((5, 5), COLOR_I), ((6, 5), COLOR_I), ((7, 5), COLOR_I),
       ((8, 5), COLOR_L), ((9, 5), COLOR_L), ((3, 4), COLOR_S)] :: locked"
  have rows: "rows_to_clear (create_grid ?B) = [5]" by code_simp
  have del: "delete_rows [5] ?B = [((3, 4), COLOR_S)]" by code_simp
  have keys: "sorted_keys [((3, 4), COLOR_S)] = [(3, 4)]" by code_simp
  have mv: "move_down [5] [(3, 4)] [((3, 4), COLOR_S)] = Some [((3, 5), COLOR_S)]" by code_simp
  have "clear_rows (create_grid ?B) ?B = Some (1, [((3, 5), COLOR_S)])"
    unfolding clear_rows_def Let_def rows del keys mv by simp
  with rows show ?thesis by simp
qed

text \<open>
  C3, amended. For every board whose locked cells lie inside the grid (the store
  being a dictionary: no key twice), with \<open>R\<close> the set of completed rows of its
  dense grid: \<open>clear_rows\<close> returns the number of
  completed rows; the new store holds a cell at \<open>(x, y)\<close> with colour \<open>c\<close> exactly
  when the old store held \<open>c\<close> at some \<open>(x, y0)\<close> outside the completed rows with
  \<open>y = y0 +\<close> the number of completed rows below \<open>y0\<close>; and it has as many cells as
  the old store had outside the completed rows, so no cell is lost or overwritten.
  When row 5 is the only completed row, it returns 1, every position \<open>(x, y)\<close> with
  \<open>y \<le> 5\<close> holds what \<open>(x, y - 1)\<close> held (the cells above row 5 have moved down by
  one, and row 5 holds the former row 4: it is empty only where row 4 was), and the
  positions with \<open>y > 5\<close> are unchanged.
\<close>

theorem clear_rows_compacts:
  assumes "distinct (map fst locked)"
    and "\<forall>((x, y), c) \<in> set locked. 0 \<le> x \<and> x < 10 \<and> 0 \<le> y \<and> y < 20"
    and "g = create_grid locked"
    and "R = {y. 0 \<le> y \<and> y < 20 \<and> (\<forall>x < 10. g ! nat y ! x \<noteq> BLACK)}"
  shows "\<exists>d'. clear_rows g locked = Some (card R, d') \<and> distinct (map fst d') \<and>
     (\<forall>x y c. map_of d' (x, y) = Some c \<longleftrightarrow>
        (\<exists>y0. map_of locked (x, y0) = Some c \<and> y0 \<notin> R \<and> y = y0 + int (card {r \<in> R. y0 < r}))) \<and>
     length d' = length (filter (\<lambda>((x, y), c). y \<notin> R) locked) \<and>
     (R = {5} \<longrightarrow> card R = 1 \<and>
        (\<forall>x y. map_of d' (x, y) =
           (if y \<le> 5 then map_of locked (x, y - 1) else map_of locked (x, y))))"
proof -
  have xr: "\<forall>((x, y), c) \<in> set locked. 0 \<le> x \<and> x < 10" using assms(2) by fast
  have R: "int ` set (rows_to_clear g) = R"
    unfolding assms(3,4) by (rule completed_rows_board)
  from clear_rows_map[OF assms(1) xr, of g] obtain d' where
    d': "clear_rows g locked = Some (length (rows_to_clear g), d')" "distinct (map fst d')"
    and m: "\<And>x y c. map_of d' (x, y) = Some c \<longleftrightarrow>
        (\<exists>y0. map_of locked (x, y0) = Some c \<and> y0 \<notin> int ` set (rows_to_clear g) \<and>
              y = y0 + int (shift_of (rows_to_clear g) y0))"
    and l: "length d' = length (filter (\<lambda>kv. snd (fst kv) \<notin> int ` set (rows_to_clear g)) locked)"
    by blast
  have n: "length (rows_to_clear g) = card R"
    using length_rows_card[of g] by (simp only: R)
  have sh: "shift_of (rows_to_clear g) y = card {r \<in> R. y < r}" for y
    using shift_of_card_int[of g y] by (simp only: R)
  have m': "map_of d' (x, y) = Some c \<longleftrightarrow>
        (\<exists>y0. map_of locked (x, y0) = Some c \<and> y0 \<notin> R \<and> y = y0 + int (card {r \<in> R. y0 < r}))"
    for x y c
    using m[of x y c] by (simp only: R sh)
  have l': "length d' = length (filter (\<lambda>((x, y), c). y \<notin> R) locked)"
  proof -
    have "(\<lambda>kv. snd (fst kv) \<notin> R) = (\<lambda>((x, y), c). y \<notin> R)"
      by (auto simp: fun_eq_iff)
    then have "filter (\<lambda>kv. snd (fst kv) \<notin> R) locked = filter (\<lambda>((x, y), c). y \<notin> R) locked"
      by (rule arg_cong)
    with l[unfolded R] show ?thesis by (rule trans[OF _ arg_cong[where f = length]])
  qed
  have five: "map_of d' (x, y) = (if y \<le> 5 then map_of locked (x, y - 1) else map_of locked (x, y))"
    if R5: "R = {5}" for x y
  proof -
    have c5: "card {r \<in> R. y0 < r} = (if y0 < 5 then 1 else 0)" for y0 :: int
    proof (cases "y0 < 5")
      case True
      then have e: "{r \<in> R. y0 < r} = {5}" unfolding R5 by auto
      show ?thesis unfolding e using True by simp
    next
      case False
      then have e: "{r \<in> R. y0 < r} = {}" unfolding R5 by auto
      show ?thesis unfolding e using False by simp
    qed
    have "map_of d' (x, y) = Some c \<longleftrightarrow>
       (if y \<le> 5 then map_of locked (x, y - 1) else map_of locked (x, y)) = Some c" for c
    proof -
      have "map_of d' (x, y) = Some c \<longleftrightarrow>
         (\<exists>y0. map_of locked (x, y0) = Some c \<and> y0 \<noteq> 5 \<and> y = y0 + (if y0 < 5 then 1 else 0))"
        unfolding m' c5 by (simp add: R5)
      also have "\<dots> \<longleftrightarrow> (if y \<le> 5 then map_of locked (x, y - 1) else map_of locked (x, y)) = Some c"
      proof (cases "y \<le> 5")
        case True
        have "(\<exists>y0. map_of locked (x, y0) = Some c \<and> y0 \<noteq> 5 \<and> y = y0 + (if y0 < 5 then 1 else 0))
            \<longleftrightarrow> map_of locked (x, y - 1) = Some c"
        proof
          assume "\<exists>y0. map_of locked (x, y0) = Some c \<and> y0 \<noteq> 5 \<and> y = y0 + (if y0 < 5 then 1 else 0)"
          then obtain y0 where y0: "map_of locked (x, y0) = Some c" "y0 \<noteq> 5"
            "y = y0 + (if y0 < 5 then 1 else 0)" by blast
          from y0(2,3) True have "y0 = y - 1" by (simp split: if_splits)
          with y0(1) show "map_of locked (x, y - 1) = Some c" by simp
        next
          assume "map_of locked (x, y - 1) = Some c"
          with True show "\<exists>y0. map_of locked (x, y0) = Some c \<and> y0 \<noteq> 5 \<and> y = y0 + (if y0 < 5 then 1 else 0)"
            by (intro exI[of _ "y - 1"]) simp
        qed
        with True show ?thesis by simp
      next
        case False
        have "(\<exists>y0. map_of locked (x, y0) = Some c \<and> y0 \<noteq> 5 \<and> y = y0 + (if y0 < 5 then 1 else 0))
            \<longleftrightarrow> map_of locked (x, y) = Some c"
        proof
          assume "\<exists>y0. map_of locked (x, y0) = Some c \<and> y0 \<noteq> 5 \<and> y = y0 + (if y0 < 5 then 1 else 0)"
          then obtain y0 where y0: "map_of locked (x, y0) = Some c" "y0 \<noteq> 5"
            "y = y0 + (if y0 < 5 then 1 else 0)" by blast
          from y0(2,3) False have "y0 = y" by (simp split: if_splits)
          with y0(1) show "map_of locked (x, y) = Some c" by simp
        next
          assume "map_of locked (x, y) = Some c"
          with False show "\<exists>y0. map_of locked (x, y0) = Some c \<and> y0 \<noteq> 5 \<and> y = y0 + (if y0 < 5 then 1 else 0)"
            by (intro exI[of _ y]) simp
        qed
        with False show ?thesis by simp
      qed
      finally show ?thesis .
    qed
    then show ?thesis by (metis option.exhaust)
  qed
  have "R = {5} \<longrightarrow> card R = 1 \<and>
        (\<forall>x y. map_of d' (x, y) =
           (if y \<le> 5 then map_of locked (x, y - 1) else map_of locked (x, y)))"
    using five by simp
  with d'(1)[unfolded n] d'(2) m' l' show ?thesis by blast
qed

theorem clear_rows_compacts_witness:
  "\<exists>d'. clear_rows (create_grid
      [((0, 5), COLOR_O), ((1, 5), COLOR_O), ((2, 5), COLOR_T), ((3, 5), COLOR_T),
       ((4, 5), COLOR_I), ((5, 5), COLOR_I), ((6, 5), COLOR_I), ((7, 5), COLOR_I),
       ((8, 5), COLOR_L), ((9, 5), COLOR_L), ((3, 4), COLOR_S), ((0, 7), COLOR_Z)])
      [((0, 5), COLOR_O), ((1, 5), COLOR_O), ((2, 5), COLOR_T), ((3, 5), COLOR_T),
       ((4, 5), COLOR_I), ((5, 5), COLOR_I), ((6, 5), COLOR_I), ((7, 5), COLOR_I),
       ((8, 5), COLOR_L), ((9, 5), COLOR_L), ((3, 4), COLOR_S), ((0, 7), COLOR_Z)]
     = Some (1, d') \<and>
     map_of d' (3, 5) = Some COLOR_S \<and> map_of d' (3, 4) = None \<and>
     map_of d' (0, 5) = None \<and> map_of d' (0, 7) = Some COLOR_Z \<and> length d' = 2"
proof -
  let ?B = "[((0, 5), COLOR_O), ((1, 5), COLOR_O), ((2, 5), COLOR_T), ((3, 5), COLOR_T),
       ((4, 5), COLOR_I), ((5, 5), COLOR_I), ((6, 5), COLOR_I), ((7, 5), COLOR_I),
       ((8, 5), COLOR_L), ((9, 5), COLOR_L), ((3, 4), COLOR_S), ((0, 7), COLOR_Z)] :: locked"
  have d: "distinct (map fst ?B)" by simp
  have b: "\<forall>((x, y), c) \<in> set ?B. 0 \<le> x \<and> x < 10 \<and> 0 \<le> y \<and> y < 20" by simp
  have rows: "rows_to_clear (create_grid ?B) = [5]" by code_simp
  have R: "{5} = {y. 0 \<le> y \<and> y < 20 \<and> (\<forall>x < 10. create_grid ?B ! nat y ! x \<noteq> BLACK)}"
    using completed_rows_board[of ?B] unfolding rows by simp
  from clear_rows_compacts[OF d b refl R] obtain d' where
    c: "clear_rows (create_grid ?B) ?B = Some (card {5::int}, d')"
    and l: "length d' = length (filter (\<lambda>((x, y), c). y \<notin> {5::int}) ?B)"
    and m: "\<forall>x y. map_of d' (x, y) =
           (if y \<le> 5 then map_of ?B (x, y - 1) else map_of ?B (x, y))"
    by blast
  from c have "clear_rows (create_grid ?B) ?B = Some (1, d')" by simp
  moreover from l have "length d' = 2" by simp
  moreover have "map_of d' (3, 5) = Some COLOR_S" "map_of d' (3, 4) = None"
    "map_of d' (0, 5) = None" "map_of d' (0, 7) = Some COLOR_Z"
    by (simp_all add: m)
  ultimately show ?thesis by blast
qed

text \<open>
  C4, as stated, fails: the shift counts the completed rows \<open>row\<close> with \<open>y < row\<close>
  (line 167), those below the cell, not those with a row index less than \<open>y\<close>. With
  row 5 the only completed row, the cell at \<open>(0, 7)\<close> has one completed row of smaller
  index and stays at \<open>(0, 7)\<close>; the cell at \<open>(0, 4)\<close> has none and moves to \<open>(0, 5)\<close>.
\<close>

theorem clear_rows_shift_by_rows_above_counterexample:
  "rows_to_clear (create_grid
      [((0, 5), COLOR_O), ((1, 5), COLOR_O), ((2, 5), COLOR_T), ((3, 5), COLOR_T),
       ((4, 5), COLOR_I), ((5, 5), COLOR_I), ((6, 5), COLOR_I), ((7, 5), COLOR_I),
       ((8, 5), COLOR_L), ((9, 5), COLOR_L), ((0, 4), COLOR_J), ((0, 7), COLOR_Z)]) = [5] \<and>
   clear_rows (create_grid
      [((0, 5), COLOR_O), ((1, 5), COLOR_O), ((2, 5), COLOR_T), ((3, 5), COLOR_T),
       ((4, 5), COLOR_I), ((5, 5), COLOR_I), ((6, 5), COLOR_I), ((7, 5), COLOR_I),
       ((8, 5), COLOR_L), ((9, 5), COLOR_L), ((0, 4), COLOR_J), ((0, 7), COLOR_Z)])
      [((0, 5), COLOR_O), ((1, 5), COLOR_O), ((2, 5), COLOR_T), ((3, 5), COLOR_T),
       ((4, 5), COLOR_I), ((5, 5), COLOR_I), ((6, 5), COLOR_I), ((7, 5), COLOR_I),
       ((8, 5), COLOR_L), ((9, 5), COLOR_L), ((0, 4), COLOR_J), ((0, 7), COLOR_Z)]
     = Some (1, [((0, 7), COLOR_Z), ((0, 5), COLOR_J)]) \<and>
   map_of ([((0, 7), COLOR_Z), ((0, 5), COLOR_J)] :: locked) (0, 7 + 1) = None \<and>
   map_of ([((0, 7), COLOR_Z), ((0, 5), COLOR_J)] :: locked) (0, 4 + 0) = None"
proof -
  let ?B = "[((0, 5), COLOR_O), ((1, 5), COLOR_O), ((2, 5), COLOR_T), ((3, 5), COLOR_T),
       ((4, 5), COLOR_I), ((5, 5), COLOR_I), ((6, 5), COLOR_I), ((7, 5), COLOR_I),
       ((8, 5), COLOR_L), ((9, 5), COLOR_L), ((0, 4), COLOR_J), ((0, 7), COLOR_Z)] :: locked"
  have rows: "rows_to_clear (create_grid ?B) = [5]" by code_simp
  have del: "delete_rows [5] ?B = [((0, 4), COLOR_J), ((0, 7), COLOR_Z)]" by code_simp
  have keys: "sorted_keys [((0, 4), COLOR_J), ((0, 7), COLOR_Z)] = [(0, 7), (0, 4)]" by code_simp
  have mv: "move_down [5] [(0, 7), (0, 4)] [((0, 4), COLOR_J), ((0, 7), COLOR_Z)]
      = Some [((0, 7), COLOR_Z), ((0, 5), COLOR_J)]" by code_simp
  have "clear_rows (create_grid ?B) ?B = Some (1, [((0, 7), COLOR_Z), ((0, 5), COLOR_J)])"
    unfolding clear_rows_def Let_def rows del keys mv by simp
  with rows show ?thesis by simp
qed

text \<open>
  C4, amended. For every invocation of \<open>clear_rows\<close> that clears at least one row, on
  a store (a dictionary: no key twice) whose keys have \<open>x\<close> in \<open>[0, 10)\<close>: each remaining locked cell at \<open>(x, y)\<close>
  is found afterwards at \<open>(x, y + shift)\<close>, where \<open>shift\<close> is the number of completed
  rows whose row index is greater than \<open>y\<close> (the completed rows below the cell).
\<close>

theorem clear_rows_shift_by_rows_below:
  assumes "distinct (map fst locked)"
    and "\<forall>((x, y), c) \<in> set locked. 0 \<le> x \<and> x < 10"
    and "R = {r. 0 \<le> r \<and> r < 20 \<and> BLACK \<notin> set (g ! nat r)}"
    and "R \<noteq> {}"
    and "map_of locked (x, y) = Some c" and "y \<notin> R"
  shows "\<exists>d'. clear_rows g locked = Some (card R, d') \<and>
              map_of d' (x, y + int (card {r \<in> R. y < r})) = Some c"
proof -
  have R: "int ` set (rows_to_clear g) = R"
    unfolding assms(3) by (rule completed_rows_any)
  from clear_rows_map[OF assms(1,2), of g] obtain d' where
    d': "clear_rows g locked = Some (length (rows_to_clear g), d')"
    and m: "\<And>x y c. map_of d' (x, y) = Some c \<longleftrightarrow>
        (\<exists>y0. map_of locked (x, y0) = Some c \<and> y0 \<notin> int ` set (rows_to_clear g) \<and>
              y = y0 + int (shift_of (rows_to_clear g) y0))"
    by blast
  have n: "length (rows_to_clear g) = card R"
    using length_rows_card[of g] by (simp only: R)
  have sh: "shift_of (rows_to_clear g) y = card {r \<in> R. y < r}"
    using shift_of_card_int[of g y] by (simp only: R)
  have "map_of d' (x, y + int (shift_of (rows_to_clear g) y)) = Some c"
    unfolding m using assms(5,6) R by blast
  then have "map_of d' (x, y + int (card {r \<in> R. y < r})) = Some c"
    by (simp only: sh)
  with d'[unfolded n] show ?thesis by blast
qed

theorem clear_rows_shift_by_rows_below_witness:
  "\<exists>d'. clear_rows (create_grid
      [((0, 5), COLOR_O), ((1, 5), COLOR_O), ((2, 5), COLOR_T), ((3, 5), COLOR_T),
       ((4, 5), COLOR_I), ((5, 5), COLOR_I), ((6, 5), COLOR_I), ((7, 5), COLOR_I),
       ((8, 5), COLOR_L), ((9, 5), COLOR_L), ((0, 4), COLOR_J), ((0, 7), COLOR_Z)])
      [((0, 5), COLOR_O), ((1, 5), COLOR_O), ((2, 5), COLOR_T), ((3, 5), COLOR_T),
       ((4, 5), COLOR_I), ((5, 5), COLOR_I), ((6, 5), COLOR_I), ((7, 5), COLOR_I),
       ((8, 5), COLOR_L), ((9, 5), COLOR_L), ((0, 4), COLOR_J), ((0, 7), COLOR_Z)]
     = Some (1, d') \<and> map_of d' (0, 4 + 1) = Some COLOR_J"
proof -
  let ?B = "[((0, 5), COLOR_O), ((1, 5), COLOR_O), ((2, 5), COLOR_T), ((3, 5), COLOR_T),
       ((4, 5), COLOR_I), ((5, 5), COLOR_I), ((6, 5), COLOR_I), ((7, 5), COLOR_I),
       ((8, 5), COLOR_L), ((9, 5), COLOR_L), ((0, 4), COLOR_J), ((0, 7), COLOR_Z)] :: locked"
  have d: "distinct (map fst ?B)" by simp
  have b: "\<forall>((x, y), c) \<in> set ?B. 0 \<le> x \<and> x < 10" by simp
  have rows: "rows_to_clear (create_grid ?B) = [5]" by code_simp
  have R: "{5} = {r. 0 \<le> r \<and> r < 20 \<and> BLACK \<notin> set (create_grid ?B ! nat r)}"
    using completed_rows_any[of "create_grid ?B"] unfolding rows by simp
  have ne: "{5::int} \<noteq> {}" by simp
  have c: "map_of ?B (0, 4) = Some COLOR_J" by simp
  have y: "(4::int) \<notin> {5}" by simp
  have s: "{r \<in> {5::int}. 4 < r} = {5}" by auto
  from clear_rows_shift_by_rows_below[OF d b R ne c y]
  show ?thesis unfolding s by simp
qed

section \<open>Scoring\<close>

lemma add_score_table:
  "add_score n score =
     score + (if n = 0 then 0 else if n = 1 then 100 else if n = 2 then 300
              else if n = 3 then 500 else 800)"
  by (simp add: add_score_def)

lemma lock_piece_keeps_dict:
  assumes "distinct (map fst locked)" and "\<forall>((x, y), c) \<in> set locked. 0 \<le> x \<and> x < 10"
    and "in_bounds p"
  shows "distinct (map fst (lock_piece p locked))"
    and "\<forall>((x, y), c) \<in> set (lock_piece p locked). 0 \<le> x \<and> x < 10"
proof -
  show "distinct (map fst (lock_piece p locked))"
    unfolding lock_piece_def using assms(1) by (rule distinct_fold_update)
  have keys: "fst ` set (lock_piece p locked) = fst ` set locked \<union> set (get_cells p)"
    unfolding lock_piece_def by (rule keys_fold_update)
  have "0 \<le> fst k \<and> fst k < 10" if "k \<in> fst ` set (lock_piece p locked)" for k
  proof -
    from that keys consider "k \<in> fst ` set locked" | "k \<in> set (get_cells p)" by blast
    then show ?thesis
    proof cases
      case 1
      with assms(2) show ?thesis by force
    next
      case 2
      with assms(3) show ?thesis
        unfolding in_bounds_def in_bounds_cells_iff by force
    qed
  qed
  then show "\<forall>((x, y), c) \<in> set (lock_piece p locked). 0 \<le> x \<and> x < 10"
    by force
qed

text \<open>
  C7. For every lock event and every prior score: the new score is the prior score
  plus 100, 300, 500 or 800 when \<open>clear_rows\<close> returned 1, 2, 3 or at least 4, and
  the prior score itself when it returned 0. And \<open>clear_rows\<close> does return a count
  there (no \<open>KeyError\<close>) whenever the store is a dictionary with keys in the columns
  of the grid and the piece is within bounds.
\<close>

theorem lock_event_score:
  "lock_event p locked score =
     (case clear_rows (draw_piece p (create_grid locked)) (lock_piece p locked) of
        None \<Rightarrow> None
      | Some (n, locked') \<Rightarrow>
          Some (locked', score + (if n = 0 then 0 else if n = 1 then 100 else if n = 2 then 300
                                 else if n = 3 then 500 else 800))) \<and>
   (distinct (map fst locked) \<and> (\<forall>((x, y), c) \<in> set locked. 0 \<le> x \<and> x < 10) \<and> in_bounds p
      \<longrightarrow> (\<exists>n locked'. clear_rows (draw_piece p (create_grid locked)) (lock_piece p locked)
                          = Some (n, locked')))"
proof -
  have a: "lock_event p locked score =
     (case clear_rows (draw_piece p (create_grid locked)) (lock_piece p locked) of
        None \<Rightarrow> None
      | Some (n, locked') \<Rightarrow>
          Some (locked', score + (if n = 0 then 0 else if n = 1 then 100 else if n = 2 then 300
                                 else if n = 3 then 500 else 800)))"
    unfolding lock_event_def Let_def
    by (simp only: add_score_table split: option.splits prod.splits)
  have b: "\<exists>n locked'. clear_rows (draw_piece p (create_grid locked)) (lock_piece p locked)
                          = Some (n, locked')"
    if "distinct (map fst locked)" "\<forall>((x, y), c) \<in> set locked. 0 \<le> x \<and> x < 10" "in_bounds p"
    using clear_rows_general[OF lock_piece_keeps_dict[OF that]] by blast
  from a b show ?thesis by blast
qed

theorem lock_event_score_witness:
  "lock_event \<lparr>piece_x = 5, piece_y = 19, shape_index = 0, rotation = 0\<rparr>
       [((0, 19), COLOR_O), ((1, 19), COLOR_O), ((2, 19), COLOR_T), ((3, 19), COLOR_T),
        ((8, 19), COLOR_L), ((9, 19), COLOR_L), ((9, 18), COLOR_L)] 40
     = Some ([((9, 19), COLOR_L)], 140)"
proof -
  let ?p = "\<lparr>piece_x = 5, piece_y = 19, shape_index = 0, rotation = 0\<rparr>"
  let ?L = "[((0, 19), COLOR_O), ((1, 19), COLOR_O), ((2, 19), COLOR_T), ((3, 19), COLOR_T),
        ((8, 19), COLOR_L), ((9, 19), COLOR_L), ((9, 18), COLOR_L)] :: locked"
  have rows: "rows_to_clear (draw_piece ?p (create_grid ?L)) = [19]"
    by code_simp
  have lock: "lock_piece ?p ?L = ?L @ [((5, 19), COLOR_I), ((4, 19), COLOR_I),
      ((6, 19), COLOR_I), ((7, 19), COLOR_I)]"
    by code_simp
  have del: "delete_rows [19] (?L @ [((5, 19), COLOR_I), ((4, 19), COLOR_I),
      ((6, 19), COLOR_I), ((7, 19), COLOR_I)]) = [((9, 18), COLOR_L)]"
    by code_simp
  have mv: "move_down [19] (sorted_keys [((9, 18), COLOR_L)]) [((9, 18), COLOR_L)]
      = Some [((9, 19), COLOR_L)]"
    by code_simp
  have ev: "clear_rows (draw_piece ?p (create_grid ?L)) (lock_piece ?p ?L)
      = Some (1, [((9, 19), COLOR_L)])"
    unfolding clear_rows_def Let_def rows lock del mv by simp
  from lock_event_score[of ?p ?L 40] show ?thesis
    unfolding ev by simp
qed

end
